theory Spec2Isabelle
  imports Main
begin

section \<open>JavaScript values, as far as the handler reads them\<close>

text \<open>
  The handler of \<^verbatim>\<open>supabase/functions/vk-video-api/index.ts\<close> receives two untyped JSON
  documents: the request body (\<^verbatim>\<open>await req.json()\<close>) and the provider's answer
  (\<^verbatim>\<open>await vkResponse.json()\<close>). Both are values produced by \<^verbatim>\<open>JSON.parse\<close>.
  A number is kept only as far as the handler can observe it: whether it is zero
  (falsy, and equal to \<^verbatim>\<open>0\<close> under \<^verbatim>\<open>===\<close>) and, otherwise, its decimal rendering.
  Strings are lists of 8-bit characters, so the model covers texts whose UTF-16 code units
  are below 256.
\<close>

datatype jsnum = Zero | NonZero string

datatype jsval =
    JUndefined
  | JNull
  | JBool bool
  | JNum jsnum
  | JStr string
  | JArr "jsval list"
  | JObj "(string \<times> jsval) list"

text \<open>An exception: a \<^verbatim>\<open>TypeError\<close> raised by the handler's own code, or the
  rejection of \<^verbatim>\<open>req.json()\<close>, \<^verbatim>\<open>fetch\<close> or \<^verbatim>\<open>vkResponse.json()\<close>, carried
  with the text \<^verbatim>\<open>String(error)\<close> gives for it.\<close>

datatype js_error = TypeError | Rejected string

definition and_then :: "js_error + 'a \<Rightarrow> ('a \<Rightarrow> js_error + 'b) \<Rightarrow> js_error + 'b" where
  "and_then m f = (case m of Inl e \<Rightarrow> Inl e | Inr x \<Rightarrow> f x)"

text \<open>Truthiness, as tested by \<^verbatim>\<open>!x\<close>, \<^verbatim>\<open>if (x)\<close> and \<^verbatim>\<open>x || y\<close>.\<close>

fun truthy :: "jsval \<Rightarrow> bool" where
  "truthy JUndefined = False"
| "truthy JNull = False"
| "truthy (JBool b) = b"
| "truthy (JNum Zero) = False"
| "truthy (JNum (NonZero _)) = True"
| "truthy (JStr s) = (s \<noteq> [])"
| "truthy (JArr _) = True"
| "truthy (JObj _) = True"

definition js_or :: "jsval \<Rightarrow> jsval \<Rightarrow> jsval" where
  "js_or a b = (if truthy a then a else b)"

text \<open>A variable of type \<^verbatim>\<open>string | null\<close> (\<^verbatim>\<open>ownerId\<close>, \<^verbatim>\<open>videoId\<close>,
  \<^verbatim>\<open>existingAccessKey\<close>) and the optional environment variable.\<close>

definition of_nullable :: "string option \<Rightarrow> jsval" where
  "of_nullable x = (case x of None \<Rightarrow> JNull | Some s \<Rightarrow> JStr s)"

text \<open>Such a variable inside a template literal: \<^verbatim>\<open>null\<close> renders as the text
  \<^verbatim>\<open>null\<close>.\<close>

definition show_nullable :: "string option \<Rightarrow> string" where
  "show_nullable x = (case x of None \<Rightarrow> ''null'' | Some s \<Rightarrow> s)"

text \<open>Reading a property \<^verbatim>\<open>v.k\<close> for the names the handler reads this way
  (\<^verbatim>\<open>videoUrl\<close>, \<^verbatim>\<open>error\<close>, \<^verbatim>\<open>error_msg\<close>, \<^verbatim>\<open>error_code\<close>, \<^verbatim>\<open>response\<close>,
  \<^verbatim>\<open>items\<close>, \<^verbatim>\<open>access_key\<close>, \<^verbatim>\<open>player\<close>, \<^verbatim>\<open>title\<close>, \<^verbatim>\<open>duration\<close>): none of
  them is defined on a primitive, an array or \<^verbatim>\<open>Object.prototype\<close>, so only an own
  property of an object yields a value, and reading from \<^verbatim>\<open>null\<close> or \<^verbatim>\<open>undefined\<close>
  throws.\<close>

fun get_field :: "jsval \<Rightarrow> string \<Rightarrow> js_error + jsval" where
  "get_field JUndefined k = Inl TypeError"
| "get_field JNull k = Inl TypeError"
| "get_field (JObj kvs) k = Inr (case map_of kvs k of None \<Rightarrow> JUndefined | Some v \<Rightarrow> v)"
| "get_field _ k = Inr JUndefined"

text \<open>\<^verbatim>\<open>videos.length === 0\<close> and \<^verbatim>\<open>videos[0]\<close>.\<close>

fun length_is_zero :: "jsval \<Rightarrow> js_error + bool" where
  "length_is_zero JUndefined = Inl TypeError"
| "length_is_zero JNull = Inl TypeError"
| "length_is_zero (JArr xs) = Inr (xs = [])"
| "length_is_zero (JStr s) = Inr (s = [])"
| "length_is_zero (JObj kvs) = Inr (map_of kvs ''length'' = Some (JNum Zero))"
| "length_is_zero _ = Inr False"

fun index0 :: "jsval \<Rightarrow> js_error + jsval" where
  "index0 JUndefined = Inl TypeError"
| "index0 JNull = Inl TypeError"
| "index0 (JArr xs) = Inr (case xs of [] \<Rightarrow> JUndefined | x # _ \<Rightarrow> x)"
| "index0 (JStr s) = Inr (case s of [] \<Rightarrow> JUndefined | c # _ \<Rightarrow> JStr [c])"
| "index0 (JObj kvs) = Inr (case map_of kvs ''0'' of None \<Rightarrow> JUndefined | Some v \<Rightarrow> v)"
| "index0 _ = Inr JUndefined"

text \<open>\<^verbatim>\<open>ToString\<close>, as applied by a template literal \<^verbatim>\<open>`${x}`\<close>. A parsed JSON object
  has no callable \<^verbatim>\<open>toString\<close> of its own: without such a key it renders as
  \<^verbatim>\<open>[object Object]\<close>, with one the conversion throws. An array joins its elements with
  commas, \<^verbatim>\<open>null\<close> rendering as the empty string there.\<close>

fun to_string :: "jsval \<Rightarrow> js_error + string"
  and join_elems :: "jsval list \<Rightarrow> js_error + string" where
  "to_string JUndefined = Inr ''undefined''"
| "to_string JNull = Inr ''null''"
| "to_string (JBool b) = Inr (if b then ''true'' else ''false'')"
| "to_string (JNum Zero) = Inr ''0''"
| "to_string (JNum (NonZero r)) = Inr r"
| "to_string (JStr s) = Inr s"
| "to_string (JArr xs) = join_elems xs"
| "to_string (JObj kvs) =
     (if map_of kvs ''toString'' = None then Inr ''[object Object]'' else Inl TypeError)"
| "join_elems [] = Inr []"
| "join_elems (x # xs) =
     and_then (if x = JNull \<or> x = JUndefined then Inr [] else to_string x) (\<lambda>a.
     if xs = [] then Inr a else and_then (join_elems xs) (\<lambda>b. Inr (a @ '','' @ b)))"

section \<open>Regular expressions\<close>

text \<open>
  The patterns of the source use literals, \<^verbatim>\<open>.\<close>, character classes, \<^verbatim>\<open>\d\<close>,
  \<^verbatim>\<open>^\<close>, sequencing, alternation, the greedy quantifiers \<^verbatim>\<open>*\<close>, \<^verbatim>\<open>+\<close>, \<^verbatim>\<open>?\<close> and
  capturing groups. \<open>Grp i r\<close> is the \<open>i\<close>-th capturing group; \<^verbatim>\<open>(?:r)\<close> is \<open>r\<close>.
  No group of the source stands under a quantifier, so the resetting of captures at each
  iteration is not modelled.
\<close>

datatype regex =
    Eps
  | Lit char
  | Dot
  | Class "(char \<times> char) list"
  | Bol
  | Seq regex regex
  | Alt regex regex
  | Star regex
  | Grp nat regex

definition Plus :: "regex \<Rightarrow> regex" where
  "Plus r = Seq r (Star r)"

definition Opt :: "regex \<Rightarrow> regex" where
  "Opt r = Alt r Eps"

definition Digit :: regex where
  "Digit = Class [(CHR ''0'', CHR ''9'')]"

fun Str :: "string \<Rightarrow> regex" where
  "Str [] = Eps"
| "Str (c # cs) = Seq (Lit c) (Str cs)"

declare Str.simps [simp del]

fun Seqs :: "regex list \<Rightarrow> regex" where
  "Seqs [] = Eps"
| "Seqs (r # rs) = Seq r (Seqs rs)"

text \<open>Case folding of the \<^verbatim>\<open>i\<close> flag (\<^verbatim>\<open>Canonicalize\<close> without the \<^verbatim>\<open>u\<close> flag):
  a character is compared by its upper-case form. Only the ASCII letters are folded here;
  every character the patterns of the source mention is ASCII, and no character outside
  ASCII folds to an ASCII one.\<close>

definition is_lower :: "char \<Rightarrow> bool" where
  "is_lower c = (let n = (of_char c :: nat) in 97 \<le> n \<and> n \<le> 122)"

definition is_upper :: "char \<Rightarrow> bool" where
  "is_upper c = (let n = (of_char c :: nat) in 65 \<le> n \<and> n \<le> 90)"

fun set_bit5 :: "bool \<Rightarrow> char \<Rightarrow> char" where
  "set_bit5 b (Char b0 b1 b2 b3 b4 b5 b6 b7) = Char b0 b1 b2 b3 b4 b b6 b7"

definition to_upper :: "char \<Rightarrow> char" where
  "to_upper c = (if is_lower c then set_bit5 False c else c)"

definition to_lower :: "char \<Rightarrow> char" where
  "to_lower c = (if is_upper c then set_bit5 True c else c)"

definition char_eq :: "bool \<Rightarrow> char \<Rightarrow> char \<Rightarrow> bool" where
  "char_eq ic c x = (if ic then to_upper c = to_upper x else c = x)"

definition in_range :: "char \<Rightarrow> char \<times> char \<Rightarrow> bool" where
  "in_range x r = ((of_char (fst r) :: nat) \<le> of_char x \<and> (of_char x :: nat) \<le> of_char (snd r))"

text \<open>A class given by its ranges; under the \<^verbatim>\<open>i\<close> flag a character belongs to it when
  some member of the class has the same upper-case form.\<close>

definition class_has :: "bool \<Rightarrow> (char \<times> char) list \<Rightarrow> char \<Rightarrow> bool" where
  "class_has ic rs x =
     list_ex (\<lambda>r. in_range x r \<or> (ic \<and> (in_range (to_upper x) r \<or> in_range (to_lower x) r))) rs"

definition line_terminator :: "char \<Rightarrow> bool" where
  "line_terminator x = (x = CHR 0x0A \<or> x = CHR 0x0D)"

type_synonym caps = "(nat \<times> string) list"

text \<open>
  The backtracking matcher. \<open>rmatch ic n r s cs\<close> lists, in the order in which a
  backtracking engine tries them, every way for \<open>r\<close> to match a prefix of \<open>s\<close>: the rest
  of the input after the match and the captures (most recent first). \<open>n\<close> is the length of
  the whole input, so that \<^verbatim>\<open>^\<close> matches where \<open>length s = n\<close>. A greedy star tries one
  more iteration before stopping, and an iteration that consumes nothing is rejected.
\<close>

function rmatch :: "bool \<Rightarrow> nat \<Rightarrow> regex \<Rightarrow> string \<Rightarrow> caps \<Rightarrow> (string \<times> caps) list" where
  "rmatch ic n Eps s cs = [(s, cs)]"
| "rmatch ic n (Lit c) s cs =
     (case s of [] \<Rightarrow> [] | x # xs \<Rightarrow> if char_eq ic c x then [(xs, cs)] else [])"
| "rmatch ic n Dot s cs =
     (case s of [] \<Rightarrow> [] | x # xs \<Rightarrow> if line_terminator x then [] else [(xs, cs)])"
| "rmatch ic n (Class rs) s cs =
     (case s of [] \<Rightarrow> [] | x # xs \<Rightarrow> if class_has ic rs x then [(xs, cs)] else [])"
| "rmatch ic n Bol s cs = (if length s = n then [(s, cs)] else [])"
| "rmatch ic n (Seq r1 r2) s cs =
     concat (map (\<lambda>(s', cs'). rmatch ic n r2 s' cs') (rmatch ic n r1 s cs))"
| "rmatch ic n (Alt r1 r2) s cs = rmatch ic n r1 s cs @ rmatch ic n r2 s cs"
| "rmatch ic n (Star r) s cs =
     concat (map (\<lambda>(s', cs'). if length s' < length s then rmatch ic n (Star r) s' cs' else [])
                 (rmatch ic n r s cs)) @ [(s, cs)]"
| "rmatch ic n (Grp i r) s cs =
     map (\<lambda>(s', cs'). (s', (i, take (length s - length s') s) # cs')) (rmatch ic n r s cs)"
  by pat_completeness auto
termination
  by (relation "inv_image (measure size <*lex*> measure length) (\<lambda>(ic, n, r, s, cs). (r, s))") auto

declare rmatch.simps [simp del]

record regexp =
  pattern :: regex
  ignoreCase :: bool

record match_result =
  index :: nat
  matched :: string
  groups :: caps

text \<open>\<^verbatim>\<open>str.match(re)\<close> for a pattern without the \<^verbatim>\<open>g\<close> flag: the first start position,
  from the left, at which the pattern matches, with the first match found there.\<close>

fun search :: "bool \<Rightarrow> nat \<Rightarrow> regex \<Rightarrow> string \<Rightarrow> match_result option" where
  "search ic n r s =
     (case rmatch ic n r s [] of
        (s', cs) # _ \<Rightarrow>
          Some \<lparr>index = n - length s, matched = take (length s - length s') s, groups = cs\<rparr>
      | [] \<Rightarrow> (case s of [] \<Rightarrow> None | _ # t \<Rightarrow> search ic n r t))"

declare search.simps [simp del]

definition js_match :: "regexp \<Rightarrow> string \<Rightarrow> match_result option" where
  "js_match re str = search (ignoreCase re) (length str) (pattern re) str"

text \<open>\<^verbatim>\<open>m[i]\<close>: the text of group \<open>i\<close>, \<open>None\<close> for \<^verbatim>\<open>undefined\<close>.\<close>

definition grp :: "match_result \<Rightarrow> nat \<Rightarrow> string option" where
  "grp m i = map_of (groups m) i"

text \<open>\<^verbatim>\<open>str.replace(re, repl)\<close> for a pattern without the \<^verbatim>\<open>g\<close> flag and a
  replacement text without \<^verbatim>\<open>$\<close>.\<close>

definition js_replace :: "string \<Rightarrow> regexp \<Rightarrow> string \<Rightarrow> string" where
  "js_replace str re repl =
     (case js_match re str of
        None \<Rightarrow> str
      | Some m \<Rightarrow> take (index m) str @ repl @ drop (index m + length (matched m)) str)"

text \<open>\<^verbatim>\<open>str.includes(pat)\<close>.\<close>

fun is_prefix :: "string \<Rightarrow> string \<Rightarrow> bool" where
  "is_prefix [] ys = True"
| "is_prefix (x # xs) [] = False"
| "is_prefix (x # xs) (y # ys) = (x = y \<and> is_prefix xs ys)"

fun str_includes :: "string \<Rightarrow> string \<Rightarrow> bool" where
  "str_includes [] pat = (pat = [])"
| "str_includes (c # s) pat = (is_prefix pat (c # s) \<or> str_includes s pat)"

section \<open>The handler\<close>

subsection \<open>Requests and responses\<close>

text \<open>A request is its method and the outcome of \<^verbatim>\<open>await req.json()\<close>. A response is its
  status, its headers and its body: \<open>None\<close> for \<^verbatim>\<open>null\<close>, otherwise the object handed to
  \<^verbatim>\<open>JSON.stringify\<close> (which drops the fields whose value is \<^verbatim>\<open>undefined\<close>).\<close>

record request =
  req_method :: string
  json :: "js_error + jsval"

record response =
  status :: nat
  headers :: "(string \<times> string) list"
  body :: "jsval option"

definition corsHeaders :: "(string \<times> string) list" where
  "corsHeaders =
     [(''Access-Control-Allow-Origin'', ''*''),
      (''Access-Control-Allow-Headers'', ''authorization, x-client-info, apikey, content-type'')]"

text \<open>\<^verbatim>\<open>new Response(JSON.stringify(b), { status: st, headers: { ...corsHeaders,
  'Content-Type': 'application/json' } })\<close>; the status is 200 where the source gives none.\<close>

definition json_response :: "nat \<Rightarrow> jsval \<Rightarrow> response" where
  "json_response st b =
     \<lparr>status = st, headers = corsHeaders @ [(''Content-Type'', ''application/json'')], body = Some b\<rparr>"

subsection \<open>URL parsing (lines 43 to 89)\<close>

definition hexClass :: regex where
  "hexClass = Class [(CHR ''a'', CHR ''f''), (CHR ''0'', CHR ''9'')]"

definition signedInt :: regex where
  "signedInt = Seq (Opt (Lit CHR ''-'')) (Plus Digit)"

text \<open>\<^verbatim>\<open>/video_ext\.php\?.*oid=(-?\d+).*id=(\d+)/i\<close>\<close>

definition extRe :: regexp where
  "extRe = \<lparr>pattern = Seqs [Str ''video_ext.php?'', Star Dot, Str ''oid='', Grp 1 signedInt,
                            Star Dot, Str ''id='', Grp 2 (Plus Digit)],
            ignoreCase = True\<rparr>"

text \<open>\<^verbatim>\<open>/[?&]hash=([a-f0-9]+)/i\<close>\<close>

definition hashRe :: regexp where
  "hashRe = \<lparr>pattern = Seqs [Class [(CHR ''?'', CHR ''?''), (CHR ''&'', CHR ''&'')], Str ''hash='',
                             Grp 1 (Plus hexClass)],
             ignoreCase = True\<rparr>"

text \<open>\<^verbatim>\<open>/(?:vk\.com|vk\.ru|vkvideo\.ru)\/video(-?\d+)_(\d+)/i\<close>\<close>

definition standardRe :: regexp where
  "standardRe = \<lparr>pattern = Seqs [Alt (Str ''vk.com'') (Alt (Str ''vk.ru'') (Str ''vkvideo.ru'')),
                                 Str ''/video'', Grp 1 signedInt, Lit CHR ''_'', Grp 2 (Plus Digit)],
                 ignoreCase = True\<rparr>"

text \<open>\<^verbatim>\<open>/video\?z=video(-?\d+)_(\d+)/i\<close>\<close>

definition zRe :: regexp where
  "zRe = \<lparr>pattern = Seqs [Str ''video?z=video'', Grp 1 signedInt, Lit CHR ''_'', Grp 2 (Plus Digit)],
          ignoreCase = True\<rparr>"

text \<open>\<^verbatim>\<open>/video-?\d+_\d+_([a-f0-9]+)/i\<close>\<close>

definition accessKeyRe :: regexp where
  "accessKeyRe = \<lparr>pattern = Seqs [Str ''video'', Opt (Lit CHR ''-''), Plus Digit, Lit CHR ''_'',
                                  Plus Digit, Lit CHR ''_'', Grp 1 (Plus hexClass)],
                  ignoreCase = True\<rparr>"

text \<open>\<^verbatim>\<open>/^http:/\<close>\<close>

definition httpRe :: regexp where
  "httpRe = \<lparr>pattern = Seq Bol (Str ''http:''), ignoreCase = False\<rparr>"

text \<open>\<^verbatim>\<open>!x\<close> for a variable of type \<^verbatim>\<open>string | null\<close>.\<close>

definition missing :: "string option \<Rightarrow> bool" where
  "missing x = (\<not> truthy (of_nullable x))"

record parsed =
  ownerId :: "string option"
  videoId :: "string option"
  existingAccessKey :: "string option"

text \<open>The five steps of the source, each an update of the three variables.\<close>

definition step_ext :: "string \<Rightarrow> parsed \<Rightarrow> parsed" where
  "step_ext videoUrl p =
     (case js_match extRe videoUrl of
        None \<Rightarrow> p
      | Some extMatch \<Rightarrow>
          (let p' = p\<lparr>ownerId := grp extMatch 1, videoId := grp extMatch 2\<rparr>
           in case js_match hashRe videoUrl of
                None \<Rightarrow> p'
              | Some hashMatch \<Rightarrow> p'\<lparr>existingAccessKey := grp hashMatch 1\<rparr>))"

definition step_standard :: "string \<Rightarrow> parsed \<Rightarrow> parsed" where
  "step_standard videoUrl p =
     (if missing (ownerId p) \<or> missing (videoId p) then
        (case js_match standardRe videoUrl of
           None \<Rightarrow> p
         | Some standardMatch \<Rightarrow> p\<lparr>ownerId := grp standardMatch 1, videoId := grp standardMatch 2\<rparr>)
      else p)"

definition step_z :: "string \<Rightarrow> parsed \<Rightarrow> parsed" where
  "step_z videoUrl p =
     (if missing (ownerId p) \<or> missing (videoId p) then
        (case js_match zRe videoUrl of
           None \<Rightarrow> p
         | Some zMatch \<Rightarrow> p\<lparr>ownerId := grp zMatch 1, videoId := grp zMatch 2\<rparr>)
      else p)"

definition step_accessKey :: "string \<Rightarrow> parsed \<Rightarrow> parsed" where
  "step_accessKey videoUrl p =
     (case js_match accessKeyRe videoUrl of
        None \<Rightarrow> p
      | Some accessKeyMatch \<Rightarrow> p\<lparr>existingAccessKey := grp accessKeyMatch 1\<rparr>)"

definition step_hashParam :: "string \<Rightarrow> parsed \<Rightarrow> parsed" where
  "step_hashParam videoUrl p =
     (if missing (existingAccessKey p) then
        (case js_match hashRe videoUrl of
           None \<Rightarrow> p
         | Some hashParamMatch \<Rightarrow> p\<lparr>existingAccessKey := grp hashParamMatch 1\<rparr>)
      else p)"

definition parse_video_url :: "string \<Rightarrow> parsed" where
  "parse_video_url videoUrl =
     step_hashParam videoUrl (step_accessKey videoUrl (step_z videoUrl (step_standard videoUrl
       (step_ext videoUrl \<lparr>ownerId = None, videoId = None, existingAccessKey = None\<rparr>))))"

subsection \<open>Embed URLs and the provider's answer (lines 127 to 228)\<close>

text \<open>The template the source writes out at lines 132, 165 and 207, and the keyless one of
  line 210.\<close>

definition hash_embed_url :: "string \<Rightarrow> string \<Rightarrow> string \<Rightarrow> string" where
  "hash_embed_url oid vid key =
     ''https://vk.com/video_ext.php?oid='' @ oid @ ''&id='' @ vid @ ''&hash='' @ key @ ''&hd=2&autoplay=0''"

definition public_embed_url :: "string \<Rightarrow> string \<Rightarrow> string" where
  "public_embed_url oid vid =
     ''https://vk.com/video_ext.php?oid='' @ oid @ ''&id='' @ vid @ ''&hd=2&autoplay=0''"

text \<open>The fallback response of lines 132 to 145 and 165 to 176.\<close>

definition fallback_response :: "parsed \<Rightarrow> response" where
  "fallback_response p =
     json_response 200 (JObj
       [(''success'', JBool True),
        (''embedUrl'', JStr (hash_embed_url (show_nullable (ownerId p)) (show_nullable (videoId p))
                               (show_nullable (existingAccessKey p)))),
        (''ownerId'', of_nullable (ownerId p)),
        (''videoId'', of_nullable (videoId p)),
        (''accessKey'', of_nullable (existingAccessKey p)),
        (''source'', JStr ''fallback'')])"

definition hint :: string where
  "hint = ''For '' @ [CHR 0x22] @ ''Anyone with the link'' @ [CHR 0x22] @
          '' videos, make sure to include the access_key or hash in the URL''"

text \<open>Lines 127 to 156: the provider answered with an error.\<close>

definition error_branch :: "parsed \<Rightarrow> jsval \<Rightarrow> js_error + response" where
  "error_branch p err =
     (if \<not> missing (existingAccessKey p) then Inr (fallback_response p)
      else
        and_then (get_field err ''error_msg'') (\<lambda>error_msg.
        and_then (get_field err ''error_code'') (\<lambda>error_code.
          Inr (json_response 400 (JObj
            [(''error'', js_or error_msg (JStr ''VK API error'')),
             (''errorCode'', error_code),
             (''hint'', JStr hint)])))))"

text \<open>Lines 160 to 183: the provider answered with no record.\<close>

definition empty_branch :: "parsed \<Rightarrow> js_error + response" where
  "empty_branch p =
     (if \<not> missing (existingAccessKey p) then Inr (fallback_response p)
      else Inr (json_response 404 (JObj [(''error'', JStr ''Video not found or not accessible'')])))"

text \<open>Lines 193 to 204: the player URL of the record.\<close>

definition player_embed_url :: "string \<Rightarrow> string" where
  "player_embed_url player =
     (let embedUrl = js_replace player httpRe ''https:'';
          embedUrl = (if \<not> str_includes embedUrl ''hd=''
                      then embedUrl @ (if str_includes embedUrl ''?'' then ''&'' else ''?'') @ ''hd=2''
                      else embedUrl);
          embedUrl = (if \<not> str_includes embedUrl ''autoplay='' then embedUrl @ ''&autoplay=0''
                      else embedUrl)
      in embedUrl)"

text \<open>Lines 191 to 211. A truthy \<^verbatim>\<open>video.player\<close> that is not a string has no
  \<^verbatim>\<open>replace\<close> method, and the call throws.\<close>

definition embed_url :: "parsed \<Rightarrow> jsval \<Rightarrow> jsval \<Rightarrow> js_error + string" where
  "embed_url p player accessKey =
     (if truthy player then
        (case player of JStr s \<Rightarrow> Inr (player_embed_url s) | _ \<Rightarrow> Inl TypeError)
      else if truthy accessKey then
        and_then (to_string accessKey) (\<lambda>key.
          Inr (hash_embed_url (show_nullable (ownerId p)) (show_nullable (videoId p)) key))
      else Inr (public_embed_url (show_nullable (ownerId p)) (show_nullable (videoId p))))"

text \<open>Lines 185 to 228: the provider answered with at least one record.\<close>

definition success_branch :: "parsed \<Rightarrow> jsval \<Rightarrow> js_error + response" where
  "success_branch p videos =
     and_then (index0 videos) (\<lambda>video.
     and_then (get_field video ''access_key'') (\<lambda>access_key.
     let accessKey = js_or access_key (of_nullable (existingAccessKey p)) in
     and_then (get_field video ''player'') (\<lambda>player.
     and_then (embed_url p player accessKey) (\<lambda>embedUrl.
     and_then (get_field video ''title'') (\<lambda>title.
     and_then (get_field video ''duration'') (\<lambda>duration.
       Inr (json_response 200 (JObj
         [(''success'', JBool True),
          (''embedUrl'', JStr embedUrl),
          (''ownerId'', of_nullable (ownerId p)),
          (''videoId'', of_nullable (videoId p)),
          (''accessKey'', js_or accessKey JNull),
          (''title'', js_or title JNull),
          (''duration'', js_or duration JNull),
          (''playerUrl'', js_or player JNull),
          (''source'', JStr ''vk_api'')]))))))))"

text \<open>Line 158: \<^verbatim>\<open>vkData.response?.items || []\<close> reads \<^verbatim>\<open>items\<close> unless
  \<^verbatim>\<open>response\<close> is \<^verbatim>\<open>null\<close> or \<^verbatim>\<open>undefined\<close>.\<close>

definition videos_of :: "jsval \<Rightarrow> js_error + jsval" where
  "videos_of vkData =
     and_then (get_field vkData ''response'') (\<lambda>resp.
     and_then (if resp = JNull \<or> resp = JUndefined then Inr JUndefined
               else get_field resp ''items'') (\<lambda>items.
       Inr (js_or items (JArr []))))"

text \<open>Lines 127 to 228, from the parsed provider answer \<^verbatim>\<open>vkData\<close> on.\<close>

definition provider_response :: "parsed \<Rightarrow> jsval \<Rightarrow> js_error + response" where
  "provider_response p vkData =
     and_then (get_field vkData ''error'') (\<lambda>err.
     if truthy err then error_branch p err
     else
       and_then (videos_of vkData) (\<lambda>videos.
       and_then (length_is_zero videos) (\<lambda>no_videos.
       if no_videos then empty_branch p else success_branch p videos)))"

subsection \<open>The request handler (lines 18 to 237)\<close>

text \<open>What a run of the handler leaves behind: the response, and the URLs it fetched. The
  calls of \<^verbatim>\<open>console.log\<close> and \<^verbatim>\<open>console.error\<close> only write to the log and are left
  out.\<close>

record outcome =
  reply :: response
  fetched :: "string list"

text \<open>Lines 113 to 118: the URL of the provider call. \<open>env\<close> is
  \<^verbatim>\<open>Deno.env.get('VK_SERVICE_ACCESS_KEY')\<close>.\<close>

definition vkApiUrl :: "parsed \<Rightarrow> string option \<Rightarrow> string" where
  "vkApiUrl p env =
     (let videoIdentifier = show_nullable (ownerId p) @ ''_'' @ show_nullable (videoId p);
          videoIdentifier =
            (if \<not> missing (existingAccessKey p)
             then videoIdentifier @ ''_'' @ show_nullable (existingAccessKey p)
             else videoIdentifier)
      in ''https://api.vk.com/method/video.get?videos='' @ videoIdentifier @
         ''&access_token='' @ show_nullable env @ ''&v=5.199'')"

text \<open>The body of the \<^verbatim>\<open>try\<close> block, with the URLs fetched on the way. \<open>fetch u\<close> is
  the outcome of \<^verbatim>\<open>await (await fetch(u)).json()\<close>. A truthy \<^verbatim>\<open>videoUrl\<close> that is
  not a string has no \<^verbatim>\<open>match\<close> method, and the call throws.\<close>

definition try_block ::
  "request \<Rightarrow> string option \<Rightarrow> (string \<Rightarrow> js_error + jsval) \<Rightarrow> string list \<times> (js_error + response)" where
  "try_block req env fetch =
     (case json req of
        Inl e \<Rightarrow> ([], Inl e)
      | Inr b \<Rightarrow>
     (case get_field b ''videoUrl'' of
        Inl e \<Rightarrow> ([], Inl e)
      | Inr videoUrl \<Rightarrow>
     if \<not> truthy videoUrl then
       ([], Inr (json_response 400 (JObj [(''error'', JStr ''Missing videoUrl parameter'')])))
     else
     (case videoUrl of
        JStr url \<Rightarrow>
          (let p = parse_video_url url in
           if missing (ownerId p) \<or> missing (videoId p) then
             ([], Inr (json_response 400 (JObj
                    [(''error'', JStr ''Invalid VK video URL format''), (''originalUrl'', videoUrl)])))
           else if missing env then
             ([], Inr (json_response 500 (JObj [(''error'', JStr ''VK API not configured'')])))
           else
             ([vkApiUrl p env], and_then (fetch (vkApiUrl p env)) (provider_response p)))
      | _ \<Rightarrow> ([], Inl TypeError))))"

text \<open>\<^verbatim>\<open>String(error)\<close> in the \<^verbatim>\<open>catch\<close> clause; the message that follows the name of
  a \<^verbatim>\<open>TypeError\<close> is the engine's and is left out.\<close>

definition error_text :: "js_error \<Rightarrow> string" where
  "error_text e = (case e of TypeError \<Rightarrow> ''TypeError'' | Rejected d \<Rightarrow> d)"

definition handler :: "request \<Rightarrow> string option \<Rightarrow> (string \<Rightarrow> js_error + jsval) \<Rightarrow> outcome" where
  "handler req env fetch =
     (if req_method req = ''OPTIONS'' then
        \<lparr>reply = \<lparr>status = 200, headers = corsHeaders, body = None\<rparr>, fetched = []\<rparr>
      else
        (case try_block req env fetch of
           (urls, Inr r) \<Rightarrow> \<lparr>reply = r, fetched = urls\<rparr>
         | (urls, Inl e) \<Rightarrow>
             \<lparr>reply = json_response 500 (JObj
                 [(''error'', JStr ''Internal server error''), (''details'', JStr (error_text e))]),
              fetched = urls\<rparr>))"

section \<open>Notions used in the proofs\<close>

subsection \<open>Syntactic properties of a pattern\<close>

text \<open>A pattern without capturing group; a pattern that cannot match the empty text; a
  pattern all of whose groups are of that kind, so that a capture is never empty.\<close>

fun nogrp :: "regex \<Rightarrow> bool" where
  "nogrp (Seq r1 r2) = (nogrp r1 \<and> nogrp r2)"
| "nogrp (Alt r1 r2) = (nogrp r1 \<and> nogrp r2)"
| "nogrp (Star r) = nogrp r"
| "nogrp (Grp i r) = False"
| "nogrp _ = True"

fun consumes :: "regex \<Rightarrow> bool" where
  "consumes (Lit c) = True"
| "consumes Dot = True"
| "consumes (Class rs) = True"
| "consumes (Seq r1 r2) = (consumes r1 \<or> consumes r2)"
| "consumes (Alt r1 r2) = (consumes r1 \<and> consumes r2)"
| "consumes (Grp i r) = consumes r"
| "consumes _ = False"

fun groups_consume :: "regex \<Rightarrow> bool" where
  "groups_consume (Seq r1 r2) = (groups_consume r1 \<and> groups_consume r2)"
| "groups_consume (Alt r1 r2) = (groups_consume r1 \<and> groups_consume r2)"
| "groups_consume (Star r) = groups_consume r"
| "groups_consume (Grp i r) = (consumes r \<and> groups_consume r)"
| "groups_consume _ = True"

subsection \<open>Invariants of the parsed reference\<close>

text \<open>The characters that \<^verbatim>\<open>[a-f0-9]\<close> accepts under the \<^verbatim>\<open>i\<close> flag, and those it
  accepts without the flag (the pattern of the spec's data model).\<close>

definition hex_digit :: "char \<Rightarrow> bool" where
  "hex_digit c = (c \<in> set ''0123456789abcdefABCDEF'')"

definition lower_hex_digit :: "char \<Rightarrow> bool" where
  "lower_hex_digit c = (c \<in> set ''0123456789abcdef'')"

text \<open>No variable of the parser ever holds the empty string, and the access key is made of
  hexadecimal digits.\<close>

definition never_empty :: "parsed \<Rightarrow> bool" where
  "never_empty p = (ownerId p \<noteq> Some [] \<and> videoId p \<noteq> Some [] \<and> existingAccessKey p \<noteq> Some [])"

definition key_ok :: "parsed \<Rightarrow> bool" where
  "key_ok p = (case existingAccessKey p of None \<Rightarrow> True | Some k \<Rightarrow> k \<noteq> [] \<and> list_all hex_digit k)"

subsection \<open>Evaluating the matcher\<close>

text \<open>The two list comprehensions of \<open>rmatch\<close> as functions of their own, so that the
  simplifier can run the matcher on a given text without unfolding it under a binder.\<close>

definition conts :: "bool \<Rightarrow> nat \<Rightarrow> regex \<Rightarrow> (string \<times> caps) list \<Rightarrow> (string \<times> caps) list" where
  "conts ic n r xs = concat (map (\<lambda>(s', cs'). rmatch ic n r s' cs') xs)"

definition star_conts :: "bool \<Rightarrow> nat \<Rightarrow> regex \<Rightarrow> nat \<Rightarrow> (string \<times> caps) list \<Rightarrow> (string \<times> caps) list" where
  "star_conts ic n r k xs =
     concat (map (\<lambda>(s', cs'). if length s' < k then rmatch ic n (Star r) s' cs' else []) xs)"

subsection \<open>Responses\<close>

text \<open>A response carries the two CORS headers.\<close>

definition has_cors :: "response \<Rightarrow> bool" where
  "has_cors r =
     (map_of (headers r) ''Access-Control-Allow-Origin'' = Some ''*'' \<and>
      map_of (headers r) ''Access-Control-Allow-Headers'' =
        Some ''authorization, x-client-info, apikey, content-type'')"


subsection \<open>Matches on input of a known shape\<close>

text \<open>The match a backtracking engine reports: the first of the list.\<close>

definition first_match :: "bool \<Rightarrow> nat \<Rightarrow> regex \<Rightarrow> string \<Rightarrow> caps \<Rightarrow> (string \<times> caps) option" where
  "first_match ic n r s cs = (case rmatch ic n r s cs of [] \<Rightarrow> None | x # _ \<Rightarrow> Some x)"

text \<open>Shapes of input text: equality up to letter case, decimal digits, and whether a
  pattern matches at a given start position.\<close>

definition ci_eq :: "string \<Rightarrow> string \<Rightarrow> bool" where
  "ci_eq lit t = list_all2 (char_eq True) lit t"

definition digit :: "char \<Rightarrow> bool" where
  "digit c = (c \<in> set ''0123456789'')"

definition matches_at :: "regexp \<Rightarrow> string \<Rightarrow> nat \<Rightarrow> bool" where
  "matches_at re str i = (rmatch (ignoreCase re) (length str) (pattern re) (drop i str) [] \<noteq> [])"

text \<open>A literal occurs in a text, up to letter case.\<close>

fun ci_prefix :: "string \<Rightarrow> string \<Rightarrow> bool" where
  "ci_prefix [] s = True"
| "ci_prefix (c # lit) [] = False"
| "ci_prefix (c # lit) (x # s) = (char_eq True c x \<and> ci_prefix lit s)"

fun occurs_ci :: "string \<Rightarrow> string \<Rightarrow> bool" where
  "occurs_ci lit [] = ci_prefix lit []"
| "occurs_ci lit (x # s) = (ci_prefix lit (x # s) \<or> occurs_ci lit s)"

section \<open>Properties of the matcher\<close>

lemma in_rmatch_Seq:
  "x \<in> set (rmatch ic n (Seq r1 r2) s cs) \<longleftrightarrow>
   (\<exists>s1 cs1. (s1, cs1) \<in> set (rmatch ic n r1 s cs) \<and> x \<in> set (rmatch ic n r2 s1 cs1))"
  by (auto simp: rmatch.simps(6))

lemma in_rmatch_Star:
  "x \<in> set (rmatch ic n (Star r) s cs) \<longleftrightarrow>
   x = (s, cs) \<or> (\<exists>s1 cs1. (s1, cs1) \<in> set (rmatch ic n r s cs) \<and> length s1 < length s \<and> x \<in> set (rmatch ic n (Star r) s1 cs1))"
  by (subst rmatch.simps(8)) (auto split: if_splits)

lemma rmatch_suffix:
  "(s', cs') \<in> set (rmatch ic n r s cs) \<Longrightarrow> \<exists>t. s = t @ s'"
proof (induction ic n r s cs arbitrary: s' cs' rule: rmatch.induct)
  case (6 ic n r1 r2 s cs)
  from 6(3) obtain s1 cs1 where a: "(s1, cs1) \<in> set (rmatch ic n r1 s cs)" and b: "(s', cs') \<in> set (rmatch ic n r2 s1 cs1)"
    unfolding in_rmatch_Seq by blast
  from 6(1)[OF a] obtain t1 where "s = t1 @ s1" by blast
  moreover from 6(2)[OF a _ b] obtain t2 where "s1 = t2 @ s'" by auto
  ultimately show ?case by auto
next
  case (8 ic n r s cs)
  from 8(3) show ?case
  proof (subst (asm) in_rmatch_Star, elim disjE exE conjE)
    fix s1 cs1 assume a: "(s1, cs1) \<in> set (rmatch ic n r s cs)" and l: "length s1 < length s" and b: "(s', cs') \<in> set (rmatch ic n (Star r) s1 cs1)"
    from 8(1)[OF a] obtain t1 where "s = t1 @ s1" by blast
    moreover from 8(2)[OF a _ l b] obtain t2 where "s1 = t2 @ s'" by auto
    ultimately show ?thesis by auto
  qed auto
qed (auto simp: rmatch.simps split: list.splits if_splits)

lemma rmatch_nogrp:
  "nogrp r \<Longrightarrow> (s', cs') \<in> set (rmatch ic n r s cs) \<Longrightarrow> cs' = cs"
proof (induction ic n r s cs arbitrary: s' cs' rule: rmatch.induct)
  case (6 ic n r1 r2 s cs)
  from 6(4) obtain s1 cs1 where a: "(s1, cs1) \<in> set (rmatch ic n r1 s cs)" and b: "(s', cs') \<in> set (rmatch ic n r2 s1 cs1)"
    unfolding in_rmatch_Seq by blast
  from 6(1)[OF _ a] 6(3) have "cs1 = cs" by simp
  moreover from 6(2)[OF a _ _ b] 6(3) have "cs' = cs1" by simp
  ultimately show ?case by simp
next
  case (8 ic n r s cs)
  from 8(4) show ?case
  proof (subst (asm) in_rmatch_Star, elim disjE exE conjE)
    fix s1 cs1 assume a: "(s1, cs1) \<in> set (rmatch ic n r s cs)" and l: "length s1 < length s" and b: "(s', cs') \<in> set (rmatch ic n (Star r) s1 cs1)"
    from 8(1)[OF _ a] 8(3) have "cs1 = cs" by simp
    moreover from 8(2)[OF a _ l _ b] 8(3) have "cs' = cs1" by simp
    ultimately show ?thesis by simp
  qed auto
qed (auto simp: rmatch.simps split: list.splits if_splits)

lemma rmatch_Star_Class_Nil: "rmatch ic n (Star (Class rs)) [] cs = [([], cs)]"
  by (simp add: rmatch.simps)

lemma rmatch_Star_Class_Cons:
  "rmatch ic n (Star (Class rs)) (x # xs) cs =
     (if class_has ic rs x then rmatch ic n (Star (Class rs)) xs cs else []) @ [(x # xs, cs)]"
  by (subst rmatch.simps) (simp add: rmatch.simps(4))

lemma rmatch_Plus_Class:
  "rmatch ic n (Plus (Class rs)) s cs =
     (case s of [] \<Rightarrow> [] | x # xs \<Rightarrow> if class_has ic rs x then rmatch ic n (Star (Class rs)) xs cs else [])"
  by (simp add: Plus_def rmatch.simps(4,6) split: list.splits)

lemma in_Star_Class:
  "(s', cs') \<in> set (rmatch ic n (Star (Class rs)) s cs) \<Longrightarrow>
     cs' = cs \<and> (\<exists>t. s = t @ s' \<and> (\<forall>c\<in>set t. class_has ic rs c))"
proof (induction s)
  case Nil
  then show ?case by (simp add: rmatch_Star_Class_Nil)
next
  case (Cons x xs)
  from Cons.prems consider "(s', cs') = (x # xs, cs)"
    | "class_has ic rs x" "(s', cs') \<in> set (rmatch ic n (Star (Class rs)) xs cs)"
    by (auto simp: rmatch_Star_Class_Cons split: if_splits)
  then show ?case
  proof cases
    case 1
    then show ?thesis by simp
  next
    case 2
    from Cons.IH[OF 2(2)] obtain t where "cs' = cs" "xs = t @ s'" "\<forall>c\<in>set t. class_has ic rs c" by blast
    with 2(1) have "x # xs = (x # t) @ s' \<and> (\<forall>c\<in>set (x # t). class_has ic rs c)" by simp
    with \<open>cs' = cs\<close> show ?thesis by blast
  qed
qed

lemma in_Plus_Class:
  assumes "(s', cs') \<in> set (rmatch ic n (Plus (Class rs)) s cs)"
  shows "cs' = cs \<and> (\<exists>t. s = t @ s' \<and> t \<noteq> [] \<and> (\<forall>c\<in>set t. class_has ic rs c))"
proof (cases s)
  case Nil
  with assms show ?thesis by (simp add: rmatch_Plus_Class)
next
  case (Cons x xs)
  with assms have x: "class_has ic rs x" and m: "(s', cs') \<in> set (rmatch ic n (Star (Class rs)) xs cs)"
    by (auto simp: rmatch_Plus_Class split: if_splits)
  from in_Star_Class[OF m] obtain t where "cs' = cs" "xs = t @ s'" "\<forall>c\<in>set t. class_has ic rs c" by blast
  with x Cons have "s = (x # t) @ s' \<and> x # t \<noteq> [] \<and> (\<forall>c\<in>set (x # t). class_has ic rs c)" by simp
  with \<open>cs' = cs\<close> show ?thesis by blast
qed

lemma in_Grp_Plus_Class:
  assumes "(s', cs') \<in> set (rmatch ic n (Grp i (Plus (Class rs))) s cs)"
  shows "\<exists>t. cs' = (i, t) # cs \<and> s = t @ s' \<and> t \<noteq> [] \<and> (\<forall>c\<in>set t. class_has ic rs c)"
proof -
  from assms obtain c1 where m: "(s', c1) \<in> set (rmatch ic n (Plus (Class rs)) s cs)"
    and c: "cs' = (i, take (length s - length s') s) # c1"
    by (auto simp: rmatch.simps(9))
  from in_Plus_Class[OF m] obtain t where "c1 = cs" "s = t @ s'" "t \<noteq> []" "\<forall>c\<in>set t. class_has ic rs c"
    by blast
  with c show ?thesis by auto
qed

lemma hexClass_chars:
  "class_has True [(CHR ''a'', CHR ''f''), (CHR ''0'', CHR ''9'')] c = hex_digit c"
  apply (cases c)
  subgoal for b0 b1 b2 b3 b4 b5 b6 b7
    by (cases b0; cases b1; cases b2; cases b3; cases b4; cases b5; cases b6; cases b7;
        simp add: class_has_def in_range_def to_upper_def to_lower_def is_lower_def is_upper_def hex_digit_def)
  done

lemma rmatch_length:
  "(s', cs') \<in> set (rmatch ic n r s cs) \<Longrightarrow> length s' \<le> length s"
  using rmatch_suffix by fastforce

lemma rmatch_consumes:
  "consumes r \<Longrightarrow> (s', cs') \<in> set (rmatch ic n r s cs) \<Longrightarrow> length s' < length s"
proof (induction r arbitrary: s cs s' cs')
  case (Seq r1 r2)
  from Seq.prems(2) obtain s1 cs1 where a: "(s1, cs1) \<in> set (rmatch ic n r1 s cs)"
    and b: "(s', cs') \<in> set (rmatch ic n r2 s1 cs1)"
    unfolding in_rmatch_Seq by blast
  from rmatch_length[OF a] rmatch_length[OF b] Seq.IH(1)[OF _ a] Seq.IH(2)[OF _ b] Seq.prems(1)
  show ?case by auto
qed (auto simp: rmatch.simps(1-5,7,9) split: list.splits if_splits)

lemma rmatch_caps_nonempty:
  "groups_consume r \<Longrightarrow> (\<forall>p\<in>set cs. snd p \<noteq> []) \<Longrightarrow> (s', cs') \<in> set (rmatch ic n r s cs)
     \<Longrightarrow> (\<forall>p\<in>set cs'. snd p \<noteq> [])"
proof (induction ic n r s cs arbitrary: s' cs' rule: rmatch.induct)
  case (6 ic n r1 r2 s cs)
  from 6(5) obtain s1 cs1 where a: "(s1, cs1) \<in> set (rmatch ic n r1 s cs)"
    and b: "(s', cs') \<in> set (rmatch ic n r2 s1 cs1)"
    unfolding in_rmatch_Seq by blast
  from 6(1)[OF _ 6(4) a] 6(3) have "(\<forall>p\<in>set cs1. snd p \<noteq> [])" by simp
  from 6(2)[OF a _ _ this b] 6(3) show ?case by simp
next
  case (8 ic n r s cs)
  from 8(5) show ?case
  proof (subst (asm) in_rmatch_Star, elim disjE exE conjE)
    fix s1 cs1 assume a: "(s1, cs1) \<in> set (rmatch ic n r s cs)" and l: "length s1 < length s"
      and b: "(s', cs') \<in> set (rmatch ic n (Star r) s1 cs1)"
    from 8(1)[OF _ 8(4) a] 8(3) have "(\<forall>p\<in>set cs1. snd p \<noteq> [])" by simp
    from 8(2)[OF a _ l 8(3) this b] show ?thesis by simp
  next
    assume "(s', cs') = (s, cs)" with 8(4) show ?thesis by simp
  qed
next
  case (9 ic n i r s cs)
  from 9(4) obtain c1 where m: "(s', c1) \<in> set (rmatch ic n r s cs)"
    and c: "cs' = (i, take (length s - length s') s) # c1"
    by (auto simp: rmatch.simps(9))
  from 9(1)[OF _ 9(3) m] 9(2) have "(\<forall>p\<in>set c1. snd p \<noteq> [])" by simp
  moreover from rmatch_consumes[OF _ m] 9(2) have "length s' < length s" by simp
  then have "take (length s - length s') s \<noteq> []" by (cases s) auto
  ultimately show ?case using c by auto
next
  case (7 ic n r1 r2 s cs)
  from 7(5) have "(s', cs') \<in> set (rmatch ic n r1 s cs) \<or> (s', cs') \<in> set (rmatch ic n r2 s cs)"
    by (simp add: rmatch.simps(7))
  with 7(1)[OF _ 7(4)] 7(2)[OF _ 7(4)] 7(3) show ?case by fastforce
qed (auto simp: rmatch.simps(1-5) split: list.splits if_splits)

lemma search_sound:
  "search ic n r s = Some m \<Longrightarrow> \<exists>s0 s'. (s', groups m) \<in> set (rmatch ic n r s0 [])"
proof (induction s)
  case Nil
  then show ?case
    by (subst (asm) search.simps) (auto split: list.splits, metis list.set_intros(1))
next
  case (Cons x xs)
  show ?case
  proof (cases "rmatch ic n r (x # xs) []")
    case Nil
    with Cons.prems have "search ic n r xs = Some m" by (subst (asm) search.simps) simp
    with Cons.IH show ?thesis by blast
  next
    case (Cons a list)
    with Cons.prems have "(fst a, groups m) \<in> set (rmatch ic n r (x # xs) [])"
      by (subst (asm) search.simps) (auto split: prod.splits)
    then show ?thesis by blast
  qed
qed

lemma js_match_grp_nonempty:
  assumes "groups_consume (pattern re)" "js_match re str = Some m"
  shows "grp m i \<noteq> Some []"
proof -
  from assms(2) obtain s0 s' where "(s', groups m) \<in> set (rmatch (ignoreCase re) (length str) (pattern re) s0 [])"
    unfolding js_match_def using search_sound by blast
  from rmatch_caps_nonempty[OF assms(1) _ this] have "(\<forall>p\<in>set (groups m). snd p \<noteq> [])" by simp
  then show ?thesis unfolding grp_def by (fastforce dest: map_of_SomeD)
qed

lemma groups_consume_Str [simp]: "groups_consume (Str t)"
  by (induction t) (auto simp: Str.simps)

lemma patterns_groups_consume:
  "groups_consume (pattern extRe)" "groups_consume (pattern hashRe)" "groups_consume (pattern standardRe)"
  "groups_consume (pattern zRe)" "groups_consume (pattern accessKeyRe)"
  by (simp_all add: extRe_def hashRe_def standardRe_def zRe_def accessKeyRe_def signedInt_def
      Plus_def Opt_def Digit_def hexClass_def)

lemma grp_nonempty:
  "js_match extRe u = Some m \<Longrightarrow> grp m i = Some [] \<Longrightarrow> False"
  "js_match hashRe u = Some m \<Longrightarrow> grp m i = Some [] \<Longrightarrow> False"
  "js_match standardRe u = Some m \<Longrightarrow> grp m i = Some [] \<Longrightarrow> False"
  "js_match zRe u = Some m \<Longrightarrow> grp m i = Some [] \<Longrightarrow> False"
  "js_match accessKeyRe u = Some m \<Longrightarrow> grp m i = Some [] \<Longrightarrow> False"
  using js_match_grp_nonempty patterns_groups_consume by blast+

lemma step_ext_never_empty: "never_empty p \<Longrightarrow> never_empty (step_ext url p)"
  by (auto simp: never_empty_def step_ext_def Let_def split: option.splits dest: grp_nonempty)

lemma step_standard_never_empty: "never_empty p \<Longrightarrow> never_empty (step_standard url p)"
  by (auto simp: never_empty_def step_standard_def split: option.splits dest: grp_nonempty)

lemma step_z_never_empty: "never_empty p \<Longrightarrow> never_empty (step_z url p)"
  by (auto simp: never_empty_def step_z_def split: option.splits dest: grp_nonempty)

lemma step_accessKey_never_empty: "never_empty p \<Longrightarrow> never_empty (step_accessKey url p)"
  by (auto simp: never_empty_def step_accessKey_def split: option.splits dest: grp_nonempty)

lemma step_hashParam_never_empty: "never_empty p \<Longrightarrow> never_empty (step_hashParam url p)"
  by (auto simp: never_empty_def step_hashParam_def split: option.splits dest: grp_nonempty)

lemma parse_never_empty: "never_empty (parse_video_url url)"
  unfolding parse_video_url_def
  by (intro step_hashParam_never_empty step_accessKey_never_empty step_z_never_empty
      step_standard_never_empty step_ext_never_empty) (simp add: never_empty_def)

lemma missing_iff: "x \<noteq> Some [] \<Longrightarrow> missing x \<longleftrightarrow> x = None"
  by (cases x) (auto simp: missing_def of_nullable_def)

lemma conts_simps:
  "conts ic n r [] = []"
  "conts ic n r ((s', cs') # xs) = rmatch ic n r s' cs' @ conts ic n r xs"
  by (simp_all add: conts_def)

lemma star_conts_simps:
  "star_conts ic n r k [] = []"
  "star_conts ic n r k ((s', cs') # xs) =
     (if length s' < k then rmatch ic n (Star r) s' cs' else []) @ star_conts ic n r k xs"
  by (simp_all add: star_conts_def)

lemma rmatch_Seq_eval: "rmatch ic n (Seq r1 r2) s cs = conts ic n r2 (rmatch ic n r1 s cs)"
  by (simp add: conts_def rmatch.simps(6))

lemma rmatch_Star_eval:
  "rmatch ic n (Star r) s cs = star_conts ic n r (length s) (rmatch ic n r s cs) @ [(s, cs)]"
  by (simp add: star_conts_def rmatch.simps(8))

lemmas regex_eval =
  Str.simps rmatch.simps(1-5) rmatch_Seq_eval rmatch.simps(7) rmatch_Star_eval rmatch.simps(9)
  conts_simps star_conts_simps search.simps js_match_def grp_def js_replace_def
  extRe_def hashRe_def standardRe_def zRe_def accessKeyRe_def httpRe_def
  signedInt_def Plus_def Opt_def Digit_def hexClass_def
  char_eq_def class_has_def in_range_def line_terminator_def
  to_upper_def to_lower_def is_lower_def is_upper_def Let_def

lemmas parse_eval =
  parse_video_url_def step_ext_def step_standard_def step_z_def step_accessKey_def
  step_hashParam_def missing_def of_nullable_def

lemma parse_no_match:
  assumes "js_match extRe url = None" "js_match standardRe url = None" "js_match zRe url = None"
  shows "ownerId (parse_video_url url) = None" "videoId (parse_video_url url) = None"
  using assms
  by (simp_all add: parse_video_url_def step_ext_def step_standard_def step_z_def step_accessKey_def
      step_hashParam_def missing_def of_nullable_def split: option.splits)

section \<open>Properties of the handler\<close>

lemma and_then_Inr: "and_then m f = Inr r \<Longrightarrow> \<exists>x. m = Inr x \<and> f x = Inr r"
  by (cases m) (simp_all add: and_then_def)

lemma and_then_simps [simp]:
  "and_then (Inl e) f = Inl e"
  "and_then (Inr x) f = f x"
  by (simp_all add: and_then_def)

lemma has_cors_json [simp]: "has_cors (json_response st b)"
  by (simp add: has_cors_def json_response_def corsHeaders_def)

lemma error_branch_cors: "error_branch p err = Inr r \<Longrightarrow> has_cors r"
  by (auto simp: error_branch_def fallback_response_def split: if_splits dest!: and_then_Inr)

lemma empty_branch_cors: "empty_branch p = Inr r \<Longrightarrow> has_cors r"
  by (auto simp: empty_branch_def fallback_response_def split: if_splits)

lemma success_branch_cors: "success_branch p videos = Inr r \<Longrightarrow> has_cors r"
  by (auto simp: success_branch_def Let_def dest!: and_then_Inr)

lemma provider_response_cors:
  assumes "provider_response p vkData = Inr r"
  shows "has_cors r"
proof -
  from assms obtain err where err: "get_field vkData ''error'' = Inr err"
    and rest: "(if truthy err then error_branch p err
                else and_then (videos_of vkData) (\<lambda>videos.
                     and_then (length_is_zero videos) (\<lambda>no_videos.
                     if no_videos then empty_branch p else success_branch p videos))) = Inr r"
    unfolding provider_response_def by (blast dest: and_then_Inr)
  show ?thesis
  proof (cases "truthy err")
    case True
    with rest show ?thesis by (simp add: error_branch_cors)
  next
    case False
    with rest obtain videos no_videos where
      "(if no_videos then empty_branch p else success_branch p videos) = Inr r"
      by (auto dest!: and_then_Inr)
    then show ?thesis
      by (cases no_videos) (simp_all add: empty_branch_cors success_branch_cors)
  qed
qed

lemma try_block_cors: "try_block req env fetch = (urls, Inr r) \<Longrightarrow> has_cors r"
  by (auto simp: try_block_def Let_def split: sum.splits if_splits jsval.splits
      dest!: and_then_Inr intro: provider_response_cors)

lemma get_field_truthy: "truthy v \<Longrightarrow> \<exists>x. get_field v k = Inr x"
  by (cases v) simp_all

lemma parsed_key_missing:
  "missing (existingAccessKey (parse_video_url url)) \<longleftrightarrow> existingAccessKey (parse_video_url url) = None"
  using parse_never_empty[of url] by (simp add: never_empty_def missing_iff)

lemma parse_empty_url: "parse_video_url [] = \<lparr>ownerId = None, videoId = None, existingAccessKey = None\<rparr>"
  by (simp add: parse_eval regex_eval)

lemma try_block_provider:
  assumes "json req = Inr b"
    and "get_field b ''videoUrl'' = Inr (JStr url)"
    and "ownerId (parse_video_url url) = Some oid"
    and "videoId (parse_video_url url) = Some vid"
    and "env = Some token" and "token \<noteq> []"
    and "fetch (vkApiUrl (parse_video_url url) env) = Inr vkData"
  shows "try_block req env fetch =
           ([vkApiUrl (parse_video_url url) env], provider_response (parse_video_url url) vkData)"
proof -
  have "url \<noteq> []" using assms(3) parse_empty_url by auto
  moreover have "oid \<noteq> []" "vid \<noteq> []"
    using parse_never_empty[of url] assms(3,4) by (auto simp: never_empty_def)
  ultimately show ?thesis
    using assms by (simp add: try_block_def Let_def missing_def of_nullable_def)
qed

lemma handler_provider:
  assumes "req_method req \<noteq> ''OPTIONS''"
    and "json req = Inr b"
    and "get_field b ''videoUrl'' = Inr (JStr url)"
    and "ownerId (parse_video_url url) = Some oid"
    and "videoId (parse_video_url url) = Some vid"
    and "env = Some token" and "token \<noteq> []"
    and "fetch (vkApiUrl (parse_video_url url) env) = Inr vkData"
    and "provider_response (parse_video_url url) vkData = Inr r"
  shows "handler req env fetch = \<lparr>reply = r, fetched = [vkApiUrl (parse_video_url url) env]\<rparr>"
  using assms(1,9) try_block_provider[where fetch = fetch, OF assms(2-8)] by (simp add: handler_def)


lemma parse_example_key:
  "parse_video_url ''https://vk.com/video-123456789_456239017_deadbeef'' =
     \<lparr>ownerId = Some ''-123456789'', videoId = Some ''456239017'', existingAccessKey = Some ''deadbeef''\<rparr>"
  by (simp add: parse_eval regex_eval)












lemma parse_example_plain:
  "parse_video_url ''https://vk.com/video-123456789_456239017'' =
     \<lparr>ownerId = Some ''-123456789'', videoId = Some ''456239017'', existingAccessKey = None\<rparr>"
  by (simp add: parse_eval regex_eval)

lemma handler_record:
  assumes "req_method req \<noteq> ''OPTIONS''"
    and "json req = Inr b"
    and "get_field b ''videoUrl'' = Inr (JStr url)"
    and "ownerId (parse_video_url url) = Some oid"
    and "videoId (parse_video_url url) = Some vid"
    and "env = Some token" and "token \<noteq> []"
    and "fetch (vkApiUrl (parse_video_url url) env) = Inr vkData"
    and "get_field vkData ''error'' = Inr err" and "\<not> truthy err"
    and "videos_of vkData = Inr (JArr (JObj kvs # others))"
    and "map_of kvs ''access_key'' = map_option JStr recordKey"
    and "map_of kvs ''player'' = map_option JStr recordPlayer"
    and "get_field (JObj kvs) ''title'' = Inr title"
    and "get_field (JObj kvs) ''duration'' = Inr duration"
    and "effectiveKey = (if recordKey = None \<or> recordKey = Some []
                         then existingAccessKey (parse_video_url url) else recordKey)"
    and "player = (if recordPlayer = Some [] then None else recordPlayer)"
  shows "reply (handler req env fetch) =
           json_response 200 (JObj
             [(''success'', JBool True),
              (''embedUrl'', JStr
                 (case player of
                    Some p \<Rightarrow> player_embed_url p
                  | None \<Rightarrow>
                     (case effectiveKey of
                        Some key \<Rightarrow> ''https://vk.com/video_ext.php?oid='' @ oid @ ''&id='' @ vid @
                                      ''&hash='' @ key @ ''&hd=2&autoplay=0''
                      | None \<Rightarrow> ''https://vk.com/video_ext.php?oid='' @ oid @ ''&id='' @ vid @
                                  ''&hd=2&autoplay=0''))),
              (''ownerId'', JStr oid),
              (''videoId'', JStr vid),
              (''accessKey'', of_nullable effectiveKey),
              (''title'', js_or title JNull),
              (''duration'', js_or duration JNull),
              (''playerUrl'', of_nullable player),
              (''source'', JStr ''vk_api'')])"
proof -
  let ?p = "parse_video_url url"
  have k: "existingAccessKey ?p \<noteq> Some []"
    using parse_never_empty[of url] by (simp add: never_empty_def)
  have "provider_response ?p vkData = Inr (json_response 200 (JObj
             [(''success'', JBool True),
              (''embedUrl'', JStr
                 (case player of
                    Some p \<Rightarrow> player_embed_url p
                  | None \<Rightarrow>
                     (case effectiveKey of
                        Some key \<Rightarrow> ''https://vk.com/video_ext.php?oid='' @ oid @ ''&id='' @ vid @
                                      ''&hash='' @ key @ ''&hd=2&autoplay=0''
                      | None \<Rightarrow> ''https://vk.com/video_ext.php?oid='' @ oid @ ''&id='' @ vid @
                                  ''&hd=2&autoplay=0''))),
              (''ownerId'', JStr oid),
              (''videoId'', JStr vid),
              (''accessKey'', of_nullable effectiveKey),
              (''title'', js_or title JNull),
              (''duration'', js_or duration JNull),
              (''playerUrl'', of_nullable player),
              (''source'', JStr ''vk_api'')]))"
    using assms(4,5,9-17) k
    apply (cases recordKey; cases recordPlayer; cases "existingAccessKey ?p")
    apply (auto simp: provider_response_def success_branch_def embed_url_def js_or_def
        of_nullable_def show_nullable_def hash_embed_url_def public_embed_url_def Let_def)
    done
  from handler_provider[where fetch = fetch, OF assms(1-8) this] show ?thesis by simp
qed

section \<open>The extracted access key\<close>

lemma nogrp_Str [simp]: "nogrp (Str t)"
  by (induction t) (auto simp: Str.simps)

lemma in_Seqs_key:
  "list_all nogrp ps \<Longrightarrow>
   (s', cs') \<in> set (rmatch ic n (Seqs (ps @ [Grp i (Plus (Class rs))])) s cs) \<Longrightarrow>
   \<exists>t. cs' = (i, t) # cs \<and> t \<noteq> [] \<and> (\<forall>c\<in>set t. class_has ic rs c)"
proof (induction ps arbitrary: s)
  case Nil
  from Nil(2) obtain s1 cs1 where a: "(s1, cs1) \<in> set (rmatch ic n (Grp i (Plus (Class rs))) s cs)"
    and b: "(s', cs') \<in> set (rmatch ic n Eps s1 cs1)"
    by (auto simp: in_rmatch_Seq)
  from b have "cs' = cs1" by (simp add: rmatch.simps)
  with in_Grp_Plus_Class[OF a] show ?case by blast
next
  case (Cons p ps)
  from Cons.prems(2) obtain s1 cs1 where a: "(s1, cs1) \<in> set (rmatch ic n p s cs)"
    and b: "(s', cs') \<in> set (rmatch ic n (Seqs (ps @ [Grp i (Plus (Class rs))])) s1 cs1)"
    by (auto simp: in_rmatch_Seq)
  from rmatch_nogrp[OF _ a] Cons.prems(1) have "cs1 = cs" by simp
  with Cons.IH[of s1] Cons.prems(1) b show ?case by simp
qed

lemma key_pattern_hex:
  assumes "pattern re = Seqs (ps @ [Grp 1 (Plus hexClass)])" "list_all nogrp ps" "ignoreCase re"
    and "js_match re u = Some m"
  shows "\<exists>k. grp m 1 = Some k \<and> k \<noteq> [] \<and> list_all hex_digit k"
proof -
  from assms(4) obtain s0 s' where
    "(s', groups m) \<in> set (rmatch (ignoreCase re) (length u) (pattern re) s0 [])"
    unfolding js_match_def using search_sound by blast
  with assms(1,3) have "(s', groups m) \<in> set (rmatch True (length u)
      (Seqs (ps @ [Grp 1 (Plus (Class [(CHR ''a'', CHR ''f''), (CHR ''0'', CHR ''9'')]))])) s0 [])"
    by (simp add: hexClass_def)
  from in_Seqs_key[OF assms(2) this] show ?thesis
    by (auto simp: grp_def hexClass_chars list_all_iff)
qed

lemma hash_key_hex:
  "js_match hashRe u = Some m \<Longrightarrow> \<exists>k. grp m 1 = Some k \<and> k \<noteq> [] \<and> list_all hex_digit k"
  by (rule key_pattern_hex[where ps = "[Class [(CHR ''?'', CHR ''?''), (CHR ''&'', CHR ''&'')], Str ''hash='']"])
     (simp_all add: hashRe_def)

lemma accessKey_key_hex:
  "js_match accessKeyRe u = Some m \<Longrightarrow> \<exists>k. grp m 1 = Some k \<and> k \<noteq> [] \<and> list_all hex_digit k"
  by (rule key_pattern_hex[where ps = "[Str ''video'', Opt (Lit CHR ''-''), Plus Digit, Lit CHR ''_'',
        Plus Digit, Lit CHR ''_'']"])
     (simp_all add: accessKeyRe_def Opt_def Plus_def Digit_def)

lemma step_ext_key_ok: "key_ok p \<Longrightarrow> key_ok (step_ext url p)"
  by (auto simp: key_ok_def step_ext_def Let_def split: option.splits dest: hash_key_hex)

lemma step_standard_key_ok: "key_ok p \<Longrightarrow> key_ok (step_standard url p)"
  by (auto simp: key_ok_def step_standard_def split: option.splits)

lemma step_z_key_ok: "key_ok p \<Longrightarrow> key_ok (step_z url p)"
  by (auto simp: key_ok_def step_z_def split: option.splits)

lemma step_accessKey_key_ok: "key_ok p \<Longrightarrow> key_ok (step_accessKey url p)"
  by (auto simp: key_ok_def step_accessKey_def split: option.splits dest: accessKey_key_hex)

lemma step_hashParam_key_ok: "key_ok p \<Longrightarrow> key_ok (step_hashParam url p)"
  by (auto simp: key_ok_def step_hashParam_def split: option.splits dest: hash_key_hex)

lemma parse_key_ok: "key_ok (parse_video_url url)"
  unfolding parse_video_url_def
  by (intro step_hashParam_key_ok step_accessKey_key_ok step_z_key_ok
      step_standard_key_ok step_ext_key_ok) (simp add: key_ok_def)

lemma parse_example_upper:
  "parse_video_url ''https://vk.com/video-1_2_ABCDEF'' =
     \<lparr>ownerId = Some ''-1'', videoId = Some ''2'', existingAccessKey = Some ''ABCDEF''\<rparr>"
  by (simp add: parse_eval regex_eval)

section \<open>The first match on input of a known shape\<close>

lemma digit_class: "class_has True [(CHR ''0'', CHR ''9'')] c = digit c"
  apply (cases c)
  subgoal for b0 b1 b2 b3 b4 b5 b6 b7
    by (cases b0; cases b1; cases b2; cases b3; cases b4; cases b5; cases b6; cases b7;
        simp add: class_has_def in_range_def to_upper_def to_lower_def is_lower_def is_upper_def digit_def)
  done

lemma first_match_Some_iff:
  "first_match ic n r s cs = Some x \<longleftrightarrow> (\<exists>xs. rmatch ic n r s cs = x # xs)"
  by (auto simp: first_match_def split: list.splits)

lemma fm_Seq:
  assumes "first_match ic n r1 s cs = Some (s1, cs1)" "first_match ic n r2 s1 cs1 = Some x"
  shows "first_match ic n (Seq r1 r2) s cs = Some x"
  using assms by (auto simp: first_match_Some_iff rmatch.simps(6))

lemma fm_Eps: "first_match ic n Eps s cs = Some (s, cs)"
  by (simp add: first_match_def rmatch.simps)

lemma fm_Lit: "char_eq ic c x \<Longrightarrow> first_match ic n (Lit c) (x # s) cs = Some (s, cs)"
  by (simp add: first_match_def rmatch.simps)

lemma fm_Str: "list_all2 (char_eq ic) lit t \<Longrightarrow> first_match ic n (Str lit) (t @ s) cs = Some (s, cs)"
proof (induction lit arbitrary: t)
  case Nil
  then show ?case by (simp add: Str.simps fm_Eps)
next
  case (Cons c lit)
  then obtain x t' where t: "t = x # t'" "char_eq ic c x" "list_all2 (char_eq ic) lit t'"
    by (auto simp: list_all2_Cons1)
  from fm_Seq[OF fm_Lit[OF t(2)] Cons.IH[OF t(3)]] t(1) show ?case
    by (simp add: Str.simps)
qed

lemma fm_Opt_take:
  "char_eq ic c x \<Longrightarrow> first_match ic n (Opt (Lit c)) (x # s) cs = Some (s, cs)"
  by (simp add: first_match_def Opt_def rmatch.simps)

lemma fm_Opt_skip:
  "s = [] \<or> \<not> char_eq ic c (hd s) \<Longrightarrow> first_match ic n (Opt (Lit c)) s cs = Some (s, cs)"
  by (cases s) (auto simp: first_match_def Opt_def rmatch.simps)

lemma fm_Star_Class:
  assumes "\<forall>c\<in>set t. class_has ic rs c" "s = [] \<or> \<not> class_has ic rs (hd s)"
  shows "first_match ic n (Star (Class rs)) (t @ s) cs = Some (s, cs)"
  using assms(1)
proof (induction t)
  case Nil
  from assms(2) show ?case
    by (cases s) (auto simp: first_match_def rmatch_Star_Class_Nil rmatch_Star_Class_Cons)
next
  case (Cons x t)
  then have "first_match ic n (Star (Class rs)) (t @ s) cs = Some (s, cs)" by simp
  then obtain xs where "rmatch ic n (Star (Class rs)) (t @ s) cs = (s, cs) # xs"
    unfolding first_match_Some_iff by blast
  with Cons.prems show ?case
    by (simp add: first_match_Some_iff rmatch_Star_Class_Cons)
qed

lemma fm_Plus_Class:
  assumes "t \<noteq> []" "\<forall>c\<in>set t. class_has ic rs c" "s = [] \<or> \<not> class_has ic rs (hd s)"
  shows "first_match ic n (Plus (Class rs)) (t @ s) cs = Some (s, cs)"
proof -
  from assms(1) obtain x t' where t: "t = x # t'" by (cases t) auto
  with assms(2) have "first_match ic n (Star (Class rs)) (t' @ s) cs = Some (s, cs)"
    using fm_Star_Class[OF _ assms(3)] by simp
  with t assms(2) show ?thesis
    by (simp add: first_match_def rmatch_Plus_Class)
qed

lemma fm_Grp:
  assumes "first_match ic n r (t @ s) cs = Some (s, cs')"
  shows "first_match ic n (Grp i r) (t @ s) cs = Some (s, (i, t) # cs')"
  using assms by (auto simp: first_match_Some_iff rmatch.simps(9))

lemma digit_not_minus: "digit c \<Longrightarrow> \<not> char_eq True (CHR ''-'') c"
  by (auto simp: digit_def char_eq_def to_upper_def is_lower_def)

lemma fm_digits:
  assumes "d \<noteq> []" "list_all digit d" "s = [] \<or> \<not> digit (hd s)"
  shows "first_match True n (Plus Digit) (d @ s) cs = Some (s, cs)"
  unfolding Digit_def
  using assms by (intro fm_Plus_Class) (auto simp: digit_class list_all_iff)

lemma fm_hex:
  assumes "t \<noteq> []" "list_all hex_digit t" "s = [] \<or> \<not> hex_digit (hd s)"
  shows "first_match True n (Plus hexClass) (t @ s) cs = Some (s, cs)"
  unfolding hexClass_def
  using assms by (intro fm_Plus_Class) (auto simp: hexClass_chars list_all_iff)

lemma fm_sign:
  assumes "sg = [] \<or> sg = ''-''" "d \<noteq> []" "list_all digit d"
  shows "first_match True n (Opt (Lit CHR ''-'')) (sg @ d @ s) cs = Some (d @ s, cs)"
proof -
  from assms(2,3) have "\<not> char_eq True (CHR ''-'') (hd (d @ s))"
    by (cases d) (auto simp: digit_not_minus)
  with assms(1) show ?thesis
    by (auto simp: fm_Opt_skip fm_Opt_take char_eq_def)
qed

lemma fm_signedInt:
  assumes "sg = [] \<or> sg = ''-''" "d \<noteq> []" "list_all digit d" "s = [] \<or> \<not> digit (hd s)"
  shows "first_match True n (Grp i signedInt) (sg @ d @ s) cs = Some (s, (i, sg @ d) # cs)"
proof -
  have "first_match True n signedInt ((sg @ d) @ s) cs = Some (s, cs)"
    unfolding signedInt_def
    using fm_Seq[OF fm_sign[OF assms(1-3)] fm_digits[OF assms(2-4)]] by simp
  from fm_Grp[OF this] show ?thesis by simp
qed

lemma fm_underscore: "first_match True n (Lit CHR ''_'') (CHR ''_'' # s) cs = Some (s, cs)"
  by (simp add: fm_Lit char_eq_def)

lemma accessKey_shape:
  assumes "ci_eq ''video'' v"
    and "sg = [] \<or> sg = ''-''"
    and "d1 \<noteq> []" "list_all digit d1" "d2 \<noteq> []" "list_all digit d2"
    and "tok \<noteq> []" "list_all hex_digit tok"
    and "rest = [] \<or> \<not> hex_digit (hd rest)"
  shows "first_match True n (pattern accessKeyRe) (v @ sg @ d1 @ ''_'' @ d2 @ ''_'' @ tok @ rest) [] =
           Some (rest, [(1, tok)])"
proof -
  have u: "\<not> digit (CHR ''_'')" by (simp add: digit_def)
  have 1: "first_match True n (Str ''video'') (v @ sg @ d1 @ ''_'' @ d2 @ ''_'' @ tok @ rest) [] =
             Some (sg @ d1 @ ''_'' @ d2 @ ''_'' @ tok @ rest, [])"
    using assms(1) by (simp add: fm_Str ci_eq_def)
  have 2: "first_match True n (Opt (Lit CHR ''-'')) (sg @ d1 @ ''_'' @ d2 @ ''_'' @ tok @ rest) [] =
             Some (d1 @ ''_'' @ d2 @ ''_'' @ tok @ rest, [])"
    by (rule fm_sign[OF assms(2-4)])
  have 3: "first_match True n (Plus Digit) (d1 @ ''_'' @ d2 @ ''_'' @ tok @ rest) [] =
             Some (''_'' @ d2 @ ''_'' @ tok @ rest, [])"
    using u by (intro fm_digits[OF assms(3,4)]) simp
  have 4: "first_match True n (Lit CHR ''_'') (''_'' @ d2 @ ''_'' @ tok @ rest) [] =
             Some (d2 @ ''_'' @ tok @ rest, [])"
    by (simp add: fm_underscore)
  have 5: "first_match True n (Plus Digit) (d2 @ ''_'' @ tok @ rest) [] =
             Some (''_'' @ tok @ rest, [])"
    using u by (intro fm_digits[OF assms(5,6)]) simp
  have 6: "first_match True n (Lit CHR ''_'') (''_'' @ tok @ rest) [] = Some (tok @ rest, [])"
    by (simp add: fm_underscore)
  have 7: "first_match True n (Grp 1 (Plus hexClass)) (tok @ rest) [] = Some (rest, [(1, tok)])"
    by (rule fm_Grp[OF fm_hex[OF assms(7-9)]])
  show ?thesis
    unfolding accessKeyRe_def
    using fm_Seq[OF 1 fm_Seq[OF 2 fm_Seq[OF 3 fm_Seq[OF 4 fm_Seq[OF 5 fm_Seq[OF 6 fm_Seq[OF 7 fm_Eps]]]]]]]
    by simp
qed

lemma search_skip:
  assumes "\<forall>i<length pre. rmatch ic n r (drop i (pre @ s)) [] = []"
  shows "search ic n r (pre @ s) = search ic n r s"
  using assms
proof (induction pre)
  case Nil
  then show ?case by simp
next
  case (Cons x pre)
  from Cons.prems have 0: "rmatch ic n r (x # pre @ s) [] = []" by force
  from Cons.prems have "\<forall>i<length pre. rmatch ic n r (drop i (pre @ s)) [] = []" by force
  with Cons.IH have "search ic n r (pre @ s) = search ic n r s" by simp
  with 0 show ?case by (simp add: search.simps[of _ _ _ "x # pre @ s"])
qed

lemma search_here:
  assumes "first_match ic n r s [] = Some (s', cs)"
  shows "search ic n r s = Some \<lparr>index = n - length s, matched = take (length s - length s') s, groups = cs\<rparr>"
  using assms by (subst search.simps) (auto simp: first_match_Some_iff)

lemma key_unchanged:
  "existingAccessKey (step_standard url p) = existingAccessKey p"
  "existingAccessKey (step_z url p) = existingAccessKey p"
  by (simp_all add: step_standard_def step_z_def split: option.splits)

lemma key_priority:
  "existingAccessKey (parse_video_url url) =
     (case js_match accessKeyRe url of
        Some m \<Rightarrow> grp m 1
      | None \<Rightarrow>
         (case existingAccessKey (step_ext url \<lparr>ownerId = None, videoId = None, existingAccessKey = None\<rparr>) of
            Some k \<Rightarrow> Some k
          | None \<Rightarrow> (case js_match hashRe url of Some h \<Rightarrow> grp h 1 | None \<Rightarrow> None)))"
proof -
  let ?p1 = "step_ext url \<lparr>ownerId = None, videoId = None, existingAccessKey = None\<rparr>"
  let ?p3 = "step_z url (step_standard url ?p1)"
  have k3: "existingAccessKey ?p3 = existingAccessKey ?p1" by (simp add: key_unchanged)
  have ne: "existingAccessKey ?p1 \<noteq> Some []"
    using step_ext_never_empty[of "\<lparr>ownerId = None, videoId = None, existingAccessKey = None\<rparr>" url]
    by (simp add: never_empty_def)
  show ?thesis
  proof (cases "js_match accessKeyRe url")
    case None
    then have "step_accessKey url ?p3 = ?p3" by (simp add: step_accessKey_def)
    with None k3 ne show ?thesis
      unfolding parse_video_url_def
      by (cases "existingAccessKey ?p1")
         (auto simp: step_hashParam_def missing_def of_nullable_def split: option.splits)
  next
    case (Some m)
    from accessKey_key_hex[OF Some] obtain k where k: "grp m 1 = Some k" "k \<noteq> []" by blast
    with Some show ?thesis
      unfolding parse_video_url_def
      by (simp add: step_accessKey_def step_hashParam_def missing_def of_nullable_def)
  qed
qed

lemma js_match_at:
  assumes "url = pre @ s"
    and "\<forall>i<length pre. \<not> matches_at re url i"
    and "first_match (ignoreCase re) (length url) (pattern re) s [] = Some (s', cs)"
  shows "\<exists>m. js_match re url = Some m \<and> groups m = cs \<and> index m = length pre"
proof -
  from assms(1,2) have "\<forall>i<length pre. rmatch (ignoreCase re) (length url) (pattern re) (drop i (pre @ s)) [] = []"
    by (simp add: matches_at_def)
  from search_skip[OF this] search_here[OF assms(3)] assms(1) show ?thesis
    by (simp add: js_match_def)
qed

lemma rmatch_Str_ci:
  "rmatch True n (Str lit) s cs = (if ci_prefix lit s then [(drop (length lit) s, cs)] else [])"
proof (induction lit arbitrary: s)
  case Nil
  then show ?case by (simp add: rmatch.simps Str.simps)
next
  case (Cons c lit)
  then show ?case
    by (cases s) (simp_all add: rmatch.simps Str.simps)
qed

lemma ci_prefix_iff: "ci_prefix lit s \<longleftrightarrow> (\<exists>t u. s = t @ u \<and> ci_eq lit t)"
proof (induction lit s rule: ci_prefix.induct)
  case (1 s)
  then show ?case by (simp add: ci_eq_def)
next
  case (2 c lit)
  then show ?case by (simp add: ci_eq_def)
next
  case (3 c lit x s)
  show ?case
  proof
    assume "ci_prefix (c # lit) (x # s)"
    with 3 obtain t u where "s = t @ u" "ci_eq lit t" "char_eq True c x" by auto
    then have "x # s = (x # t) @ u \<and> ci_eq (c # lit) (x # t)" by (simp add: ci_eq_def)
    then show "\<exists>t u. x # s = t @ u \<and> ci_eq (c # lit) t" by blast
  next
    assume "\<exists>t u. x # s = t @ u \<and> ci_eq (c # lit) t"
    then obtain t u where tu: "x # s = t @ u" "ci_eq (c # lit) t" by blast
    then obtain y t' where t: "t = y # t'" "char_eq True c y" "ci_eq lit t'"
      by (auto simp: ci_eq_def list_all2_Cons1)
    with tu have "x = y" "s = t' @ u" by auto
    with t 3 show "ci_prefix (c # lit) (x # s)" by auto
  qed
qed

lemma ci_eq_length: "ci_eq lit t \<Longrightarrow> length t = length lit"
  by (simp add: ci_eq_def list_all2_lengthD)

lemma not_occurs_drop: "\<not> occurs_ci lit s \<Longrightarrow> \<not> ci_prefix lit (drop j s)"
proof (induction s arbitrary: j)
  case Nil
  then show ?case by simp
next
  case (Cons x s)
  then show ?case by (cases j) auto
qed

lemma occurs_ci_foreign:
  assumes "\<forall>c\<in>set t. \<not> char_eq True l c"
  shows "occurs_ci (l # lit) (t @ s) = occurs_ci (l # lit) s"
  using assms by (induction t) auto

lemma rmatch_Star_Dot_Nil: "rmatch ic n (Star Dot) [] cs = [([], cs)]"
  by (simp add: rmatch.simps)

lemma rmatch_Star_Dot_Cons:
  "rmatch ic n (Star Dot) (x # xs) cs =
     (if line_terminator x then [] else rmatch ic n (Star Dot) xs cs) @ [(x # xs, cs)]"
  by (subst rmatch.simps) (simp add: rmatch.simps(3))

lemma dots_then_Nil: "rmatch ic n (Seq (Star Dot) r) [] cs = rmatch ic n r [] cs"
  by (simp add: rmatch.simps(6) rmatch_Star_Dot_Nil)

lemma dots_then_Cons:
  "rmatch ic n (Seq (Star Dot) r) (x # xs) cs =
     (if line_terminator x then [] else rmatch ic n (Seq (Star Dot) r) xs cs) @ rmatch ic n r (x # xs) cs"
  by (simp add: rmatch.simps(6) rmatch_Star_Dot_Cons)

lemma dots_then_fail:
  "\<forall>j\<le>length s. rmatch ic n r (drop j s) cs = [] \<Longrightarrow> rmatch ic n (Seq (Star Dot) r) s cs = []"
proof (induction s)
  case Nil
  then show ?case by (simp add: dots_then_Nil)
next
  case (Cons x s)
  from Cons.prems have 0: "rmatch ic n r (x # s) cs = []" by force
  from Cons.prems have "\<forall>j\<le>length s. rmatch ic n r (drop j s) cs = []" by force
  with Cons.IH 0 show ?case by (simp add: dots_then_Cons)
qed

lemma dots_then_last:
  assumes "\<forall>j. 0 < j \<and> j \<le> length s \<longrightarrow> rmatch ic n r (drop j s) cs = []"
  shows "rmatch ic n (Seq (Star Dot) r) s cs = rmatch ic n r s cs"
proof (cases s)
  case Nil
  then show ?thesis by (simp add: dots_then_Nil)
next
  case (Cons x xs)
  have "\<forall>j\<le>length xs. rmatch ic n r (drop j xs) cs = []"
  proof (intro allI impI)
    fix j assume "j \<le> length xs"
    with assms[rule_format, of "Suc j"] Cons show "rmatch ic n r (drop j xs) cs = []" by simp
  qed
  from dots_then_fail[OF this] Cons show ?thesis by (simp add: dots_then_Cons)
qed

lemma dots_then_skip:
  assumes "\<not> list_ex line_terminator q" "rmatch ic n (Seq (Star Dot) r) u cs = y # ys"
  shows "\<exists>zs. rmatch ic n (Seq (Star Dot) r) (q @ u) cs = y # zs"
  using assms(1)
proof (induction q)
  case Nil
  with assms(2) show ?case by simp
next
  case (Cons x q)
  then obtain zs where "rmatch ic n (Seq (Star Dot) r) (q @ u) cs = y # zs" by auto
  with Cons.prems show ?case by (simp add: dots_then_Cons)
qed

lemma fm_dots:
  assumes "\<not> list_ex line_terminator q"
    and "\<forall>j. 0 < j \<and> j \<le> length u \<longrightarrow> rmatch ic n r (drop j u) cs = []"
    and "first_match ic n r u cs = Some y"
  shows "first_match ic n (Seq (Star Dot) r) (q @ u) cs = Some y"
proof -
  from assms(3) obtain ys where "rmatch ic n r u cs = y # ys"
    unfolding first_match_Some_iff by blast
  with dots_then_last[OF assms(2)] have "rmatch ic n (Seq (Star Dot) r) u cs = y # ys" by simp
  from dots_then_skip[OF assms(1) this] show ?thesis
    unfolding first_match_Some_iff by blast
qed

lemma rmatch_Seq_fail: "rmatch ic n r1 s cs = [] \<Longrightarrow> rmatch ic n (Seq r1 r2) s cs = []"
  by (simp add: rmatch.simps(6))

lemma literal_then_fail:
  "\<not> ci_prefix lit s \<Longrightarrow> rmatch True n (Seq (Str lit) r) s cs = []"
  by (simp add: rmatch_Seq_fail rmatch_Str_ci)

lemma later_positions_fail:
  assumes "u \<noteq> []" "\<not> occurs_ci lit (tl u)"
  shows "\<forall>j. 0 < j \<and> j \<le> length u \<longrightarrow> rmatch True n (Seq (Str lit) r) (drop j u) cs = []"
proof (intro allI impI)
  fix j assume j: "0 < j \<and> j \<le> length u"
  then obtain k where k: "j = Suc k" by (cases j) auto
  from assms(1) have "drop j u = drop k (tl u)" unfolding k by (cases u) auto
  with not_occurs_drop[OF assms(2), of k] show "rmatch True n (Seq (Str lit) r) (drop j u) cs = []"
    by (simp add: literal_then_fail)
qed

lemma ci_eq_Cons: "ci_eq (c # lit) t \<longleftrightarrow> (\<exists>x t'. t = x # t' \<and> char_eq True c x \<and> ci_eq lit t')"
  by (auto simp: ci_eq_def list_all2_Cons1)

lemma ci_eq_Nil: "ci_eq [] t \<longleftrightarrow> t = []"
  by (simp add: ci_eq_def)

lemma digit_not_letter:
  "digit c \<Longrightarrow> \<not> char_eq True (CHR ''i'') c"
  "digit c \<Longrightarrow> \<not> char_eq True (CHR ''o'') c"
  by (auto simp: digit_def char_eq_def to_upper_def is_lower_def)

lemma ci_distinct: "char_eq True c x \<Longrightarrow> to_upper c \<noteq> to_upper c' \<Longrightarrow> \<not> char_eq True c' x"
  by (simp add: char_eq_def)

lemma fm_idpart:
  assumes "ci_eq ''id='' b" "d2 \<noteq> []" "list_all digit d2" "rest = [] \<or> \<not> digit (hd rest)"
  shows "first_match True n (Seqs [Str ''id='', Grp 2 (Plus Digit)]) (b @ d2 @ rest) cs =
           Some (rest, (2, d2) # cs)"
proof -
  have 1: "first_match True n (Str ''id='') (b @ d2 @ rest) cs = Some (d2 @ rest, cs)"
    using assms(1) by (simp add: fm_Str ci_eq_def)
  have 2: "first_match True n (Grp 2 (Plus Digit)) (d2 @ rest) cs = Some (rest, (2, d2) # cs)"
    by (rule fm_Grp[OF fm_digits[OF assms(2-4)]])
  from fm_Seq[OF 1 fm_Seq[OF 2 fm_Eps]] show ?thesis by simp
qed

lemma tail_of_id:
  assumes "ci_eq ''id='' b" "list_all digit d2" "\<not> occurs_ci ''id='' rest"
  shows "\<not> occurs_ci ''id='' (tl (b @ d2 @ rest))"
proof -
  from assms(1) obtain b0 b1 b2 where b: "b = [b0, b1, b2]"
    "char_eq True (CHR ''d'') b1" "char_eq True (CHR ''='') b2"
    by (auto simp: ci_eq_Cons ci_eq_Nil)
  have "\<not> char_eq True (CHR ''i'') b1" "\<not> char_eq True (CHR ''i'') b2"
    using ci_distinct[OF b(2)] ci_distinct[OF b(3)] by (simp_all add: to_upper_def is_lower_def)
  then have "\<forall>c\<in>set ([b1, b2] @ d2). \<not> char_eq True (CHR ''i'') c"
    using assms(2) digit_not_letter(1) by (auto simp: list_all_iff)
  from occurs_ci_foreign[OF this, of "''d=''" rest] assms(3) b(1) show ?thesis by simp
qed

lemma tail_of_oid:
  assumes "ci_eq ''oid='' a" "sg = [] \<or> sg = ''-''" "list_all digit d1" "\<not> occurs_ci ''oid='' s"
  shows "\<not> occurs_ci ''oid='' (tl (a @ sg @ d1 @ s))"
proof -
  from assms(1) obtain a0 a1 a2 a3 where a: "a = [a0, a1, a2, a3]"
    "char_eq True (CHR ''i'') a1" "char_eq True (CHR ''d'') a2" "char_eq True (CHR ''='') a3"
    by (auto simp: ci_eq_Cons ci_eq_Nil)
  have "\<not> char_eq True (CHR ''o'') a1" "\<not> char_eq True (CHR ''o'') a2" "\<not> char_eq True (CHR ''o'') a3"
    using ci_distinct[OF a(2)] ci_distinct[OF a(3)] ci_distinct[OF a(4)]
    by (simp_all add: to_upper_def is_lower_def)
  moreover have "\<not> char_eq True (CHR ''o'') (CHR ''-'')"
    by (simp add: char_eq_def to_upper_def is_lower_def)
  ultimately have "\<forall>c\<in>set ([a1, a2, a3] @ sg @ d1). \<not> char_eq True (CHR ''o'') c"
    using assms(2,3) digit_not_letter(2) by (auto simp: list_all_iff)
  from occurs_ci_foreign[OF this, of "''id=''" s] assms(4) a(1) show ?thesis by simp
qed

lemma id_start_not_digit:
  assumes "ci_eq ''id='' b"
  shows "\<not> digit (hd (b @ s))"
proof -
  from assms obtain b0 t where b: "b = b0 # t" "char_eq True (CHR ''i'') b0"
    by (auto simp: ci_eq_Cons)
  with digit_not_letter(1)[of b0] show ?thesis by auto
qed

lemma fm_oidpart:
  assumes "ci_eq ''oid='' a"
    and "sg = [] \<or> sg = ''-''" and "d1 \<noteq> []" and "list_all digit d1"
    and "q2 = [] \<or> \<not> digit (hd q2)" and "\<not> list_ex line_terminator q2"
    and "ci_eq ''id='' b" and "d2 \<noteq> []" and "list_all digit d2"
    and "rest = [] \<or> \<not> digit (hd rest)" and "\<not> occurs_ci ''id='' rest"
  shows "first_match True n (Seqs [Str ''oid='', Grp 1 signedInt, Star Dot, Str ''id='', Grp 2 (Plus Digit)])
           (a @ sg @ d1 @ q2 @ b @ d2 @ rest) cs =
         Some (rest, (2, d2) # (1, sg @ d1) # cs)"
proof -
  let ?u2 = "b @ d2 @ rest"
  have 1: "first_match True n (Str ''oid='') (a @ sg @ d1 @ q2 @ ?u2) cs = Some (sg @ d1 @ q2 @ ?u2, cs)"
    using assms(1) by (simp add: fm_Str ci_eq_def)
  have nd: "q2 @ ?u2 = [] \<or> \<not> digit (hd (q2 @ ?u2))"
    using assms(5) id_start_not_digit[OF assms(7), of "d2 @ rest"] by (cases q2) auto
  have 2: "first_match True n (Grp 1 signedInt) (sg @ d1 @ q2 @ ?u2) cs = Some (q2 @ ?u2, (1, sg @ d1) # cs)"
    by (rule fm_signedInt[OF assms(2-4) nd])
  have ne: "?u2 \<noteq> []" using assms(8) by simp
  have 3: "first_match True n (Seq (Star Dot) (Seqs [Str ''id='', Grp 2 (Plus Digit)])) (q2 @ ?u2) ((1, sg @ d1) # cs) =
             Some (rest, (2, d2) # (1, sg @ d1) # cs)"
    using fm_dots[OF assms(6) _ fm_idpart[OF assms(7-10)], of n "(1, sg @ d1) # cs"]
      later_positions_fail[OF ne tail_of_id[OF assms(7,9,11)], of n "Seqs [Grp 2 (Plus Digit)]" "(1, sg @ d1) # cs"]
    by simp
  from fm_Seq[OF 1 fm_Seq[OF 2 3]] show ?thesis by simp
qed

lemma ext_from:
  assumes "ci_eq ''video_ext.php?'' x" and "\<not> list_ex line_terminator q"
    and "ci_eq ''oid='' a"
    and "sg = [] \<or> sg = ''-''" and "d1 \<noteq> []" and "list_all digit d1"
    and "q2 = [] \<or> \<not> digit (hd q2)" and "\<not> list_ex line_terminator q2"
    and "ci_eq ''id='' b" and "d2 \<noteq> []" and "list_all digit d2"
    and "rest = [] \<or> \<not> digit (hd rest)" and "\<not> occurs_ci ''id='' rest"
    and "\<not> occurs_ci ''oid='' (q2 @ b @ d2 @ rest)"
  shows "first_match True n (pattern extRe) (x @ q @ a @ sg @ d1 @ q2 @ b @ d2 @ rest) [] =
           Some (rest, [(2, d2), (1, sg @ d1)])"
proof -
  let ?u1 = "a @ sg @ d1 @ q2 @ b @ d2 @ rest"
  let ?R1 = "Seqs [Str ''oid='', Grp 1 signedInt, Star Dot, Str ''id='', Grp 2 (Plus Digit)]"
  have 1: "first_match True n (Str ''video_ext.php?'') (x @ q @ ?u1) [] = Some (q @ ?u1, [])"
    using assms(1) by (simp add: fm_Str ci_eq_def)
  have ne: "?u1 \<noteq> []" using assms(5) by simp
  have 2: "first_match True n (Seq (Star Dot) ?R1) (q @ ?u1) [] = Some (rest, [(2, d2), (1, sg @ d1)])"
    using fm_dots[OF assms(2) _ fm_oidpart[OF assms(3-13)], of n "[]"]
      later_positions_fail[OF ne tail_of_oid[OF assms(3,4,6,14)], of n
        "Seqs [Grp 1 signedInt, Star Dot, Str ''id='', Grp 2 (Plus Digit)]" "[]"]
    by simp
  from fm_Seq[OF 1 2] show ?thesis by (simp add: extRe_def)
qed

lemma search_any:
  assumes "rmatch ic n r (drop k s) [] \<noteq> []"
    and "\<forall>i\<le>k. rmatch ic n r (drop i s) [] \<noteq> [] \<longrightarrow> (\<exists>s'. first_match ic n r (drop i s) [] = Some (s', cs))"
  shows "\<exists>m. search ic n r s = Some m \<and> groups m = cs"
  using assms
proof (induction k arbitrary: s)
  case 0
  then obtain s' where "first_match ic n r s [] = Some (s', cs)" by auto
  from search_here[OF this] show ?case by simp
next
  case (Suc k)
  show ?case
  proof (cases "rmatch ic n r s [] = []")
    case False
    with Suc.prems(2)[rule_format, of 0] obtain s' where "first_match ic n r s [] = Some (s', cs)"
      by auto
    from search_here[OF this] show ?thesis by simp
  next
    case True
    show ?thesis
    proof (cases s)
      case Nil
      with True Suc.prems(1) show ?thesis by simp
    next
      case (Cons x t)
      from Suc.prems(1) Cons have a: "rmatch ic n r (drop k t) [] \<noteq> []" by simp
      have b: "\<forall>i\<le>k. rmatch ic n r (drop i t) [] \<noteq> [] \<longrightarrow> (\<exists>s'. first_match ic n r (drop i t) [] = Some (s', cs))"
      proof (intro allI impI)
        fix i assume "i \<le> k" "rmatch ic n r (drop i t) [] \<noteq> []"
        with Suc.prems(2)[rule_format, of "Suc i"] Cons
        show "\<exists>s'. first_match ic n r (drop i t) [] = Some (s', cs)" by simp
      qed
      from Suc.IH[OF a b] True Cons show ?thesis
        by (simp add: search.simps[of _ _ _ "x # t"])
    qed
  qed
qed

lemma drop_drop_append: "i + k \<le> length w \<Longrightarrow> drop k (drop i (w @ u)) = drop (i + k) w @ u"
  by (simp add: add.commute)

lemma ext_any_start:
  assumes "url = pre @ x @ q1 @ a @ sg @ d1 @ q2 @ b @ d2 @ rest"
    and "\<not> list_ex line_terminator url"
    and "ci_eq ''video_ext.php?'' x" and "ci_eq ''oid='' a" and "ci_eq ''id='' b"
    and "sg = [] \<or> sg = ''-''" and "d1 \<noteq> []" and "list_all digit d1"
    and "d2 \<noteq> []" and "list_all digit d2"
    and "q2 = [] \<or> \<not> digit (hd q2)" and "rest = [] \<or> \<not> digit (hd rest)"
    and "\<not> occurs_ci ''oid='' (q2 @ b @ d2 @ rest)" and "\<not> occurs_ci ''id='' rest"
    and "i \<le> length pre"
    and "rmatch True n (pattern extRe) (drop i url) [] \<noteq> []"
  shows "first_match True n (pattern extRe) (drop i url) [] = Some (rest, [(2, d2), (1, sg @ d1)])"
proof -
  let ?u1 = "a @ sg @ d1 @ q2 @ b @ d2 @ rest"
  have "ci_prefix ''video_ext.php?'' (drop i url)"
    using assms(16) literal_then_fail[of "''video_ext.php?''" "drop i url" n _ "[]"]
    by (auto simp: extRe_def)
  then obtain x' u where xu: "drop i url = x' @ u" "ci_eq ''video_ext.php?'' x'"
    unfolding ci_prefix_iff by blast
  have lx: "length x' = 14" "length x = 14"
    using ci_eq_length[OF xu(2)] ci_eq_length[OF assms(3)] by simp_all
  define w where "w = pre @ x @ q1"
  have url: "url = w @ ?u1" using assms(1) by (simp add: w_def)
  have lw: "i + 14 \<le> length w" using assms(15) lx(2) by (simp add: w_def)
  have "u = drop 14 (drop i url)" using xu(1) lx(1) by simp
  also have "\<dots> = drop (i + 14) w @ ?u1" unfolding url by (rule drop_drop_append[OF lw])
  finally have u: "u = drop (i + 14) (pre @ x @ q1) @ ?u1" by (simp only: w_def)
  have "set (drop (i + 14) (pre @ x @ q1)) \<subseteq> set url"
    using set_drop_subset[of "i + 14" "pre @ x @ q1"] assms(1) by auto
  with assms(2) have nl: "\<not> list_ex line_terminator (drop (i + 14) (pre @ x @ q1))"
    by (auto simp: list_ex_iff)
  have "set q2 \<subseteq> set url" using assms(1) by auto
  with assms(2) have nl2: "\<not> list_ex line_terminator q2" by (auto simp: list_ex_iff)
  from ext_from[OF xu(2) nl assms(4,6,7,8,11) nl2 assms(5,9,10,12,14,13), of n] xu(1) u
  show ?thesis by simp
qed

lemma ext_match:
  assumes "url = pre @ x @ q1 @ a @ sg @ d1 @ q2 @ b @ d2 @ rest"
    and "\<not> list_ex line_terminator url"
    and "ci_eq ''video_ext.php?'' x" and "ci_eq ''oid='' a" and "ci_eq ''id='' b"
    and "sg = [] \<or> sg = ''-''" and "d1 \<noteq> []" and "list_all digit d1"
    and "d2 \<noteq> []" and "list_all digit d2"
    and "q2 = [] \<or> \<not> digit (hd q2)" and "rest = [] \<or> \<not> digit (hd rest)"
    and "\<not> occurs_ci ''oid='' (q2 @ b @ d2 @ rest)" and "\<not> occurs_ci ''id='' rest"
  shows "\<exists>m. js_match extRe url = Some m \<and> groups m = [(2, d2), (1, sg @ d1)]"
proof -
  let ?n = "length url"
  have "set q1 \<subseteq> set url" "set q2 \<subseteq> set url" using assms(1) by auto
  with assms(2) have nl: "\<not> list_ex line_terminator q1" "\<not> list_ex line_terminator q2"
    by (auto simp: list_ex_iff)
  have "first_match True ?n (pattern extRe) (drop (length pre) url) [] = Some (rest, [(2, d2), (1, sg @ d1)])"
    using ext_from[OF assms(3) nl(1) assms(4,6,7,8,11) nl(2) assms(5,9,10,12,14,13), of ?n] assms(1)
    by simp
  then have here: "rmatch True ?n (pattern extRe) (drop (length pre) url) [] \<noteq> []"
    by (auto simp: first_match_Some_iff)
  have "\<forall>i\<le>length pre. rmatch True ?n (pattern extRe) (drop i url) [] \<noteq> [] \<longrightarrow>
          (\<exists>s'. first_match True ?n (pattern extRe) (drop i url) [] = Some (s', [(2, d2), (1, sg @ d1)]))"
    using ext_any_start[OF assms] by blast
  from search_any[OF here this] show ?thesis
    by (simp add: js_match_def extRe_def)
qed

lemma ids_unchanged:
  "ownerId (step_accessKey url p) = ownerId p" "videoId (step_accessKey url p) = videoId p"
  "ownerId (step_hashParam url p) = ownerId p" "videoId (step_hashParam url p) = videoId p"
  by (simp_all add: step_accessKey_def step_hashParam_def split: option.splits)

lemma ids_after_ext:
  assumes "js_match extRe url = Some m" "grp m 1 = Some oid" "grp m 2 = Some vid"
  shows "ownerId (parse_video_url url) = Some oid \<and> videoId (parse_video_url url) = Some vid"
proof -
  let ?p1 = "step_ext url \<lparr>ownerId = None, videoId = None, existingAccessKey = None\<rparr>"
  from assms grp_nonempty(1)[OF assms(1)] have ne: "oid \<noteq> []" "vid \<noteq> []" by auto
  from assms have p1: "ownerId ?p1 = Some oid" "videoId ?p1 = Some vid"
    by (simp_all add: step_ext_def Let_def split: option.splits)
  with ne have "step_z url (step_standard url ?p1) = ?p1"
    by (simp add: step_standard_def step_z_def missing_def of_nullable_def)
  with p1 show ?thesis
    unfolding parse_video_url_def by (simp add: ids_unchanged)
qed

lemma fm_Class: "class_has ic rs x \<Longrightarrow> first_match ic n (Class rs) (x # s) cs = Some (s, cs)"
  by (simp add: first_match_def rmatch.simps)

lemma hash_shape:
  assumes "c = CHR ''?'' \<or> c = CHR ''&''" "ci_eq ''hash='' h"
    and "tok \<noteq> []" "list_all hex_digit tok" "r = [] \<or> \<not> hex_digit (hd r)"
  shows "first_match True n (pattern hashRe) (c # h @ tok @ r) [] = Some (r, [(1, tok)])"
proof -
  have "class_has True [(CHR ''?'', CHR ''?''), (CHR ''&'', CHR ''&'')] c"
    using assms(1) by (auto simp: class_has_def in_range_def)
  then have 1: "first_match True n (Class [(CHR ''?'', CHR ''?''), (CHR ''&'', CHR ''&'')]) (c # h @ tok @ r) [] =
                  Some (h @ tok @ r, [])"
    by (rule fm_Class)
  have 2: "first_match True n (Str ''hash='') (h @ tok @ r) [] = Some (tok @ r, [])"
    using assms(2) by (simp add: fm_Str ci_eq_def)
  have 3: "first_match True n (Grp 1 (Plus hexClass)) (tok @ r) [] = Some (r, [(1, tok)])"
    by (rule fm_Grp[OF fm_hex[OF assms(3-5)]])
  from fm_Seq[OF 1 fm_Seq[OF 2 fm_Seq[OF 3 fm_Eps]]] show ?thesis by (simp add: hashRe_def)
qed

lemmas shape_eval =
  ci_eq_def char_eq_def to_upper_def is_lower_def digit_def hex_digit_def line_terminator_def

section \<open>The claims\<close>

subsection \<open>C1: the provider answers with an error\<close>

text \<open>
  Claim C1. Let a request reach the provider call (its URL parses, the credential is
  configured) and let the provider's answer carry a truthy \<^verbatim>\<open>error\<close>. Then the status
  is 400 if and only if no access key was extracted from the input URL. Without a key the
  body carries the provider's message (or \<^verbatim>\<open>VK API error\<close> when it is falsy), the
  provider's code and the usage hint; with a key the response is a success with the embed
  URL built from that key and \<^verbatim>\<open>source = "fallback"\<close>.
\<close>

theorem c1_provider_error:
  assumes "req_method req \<noteq> ''OPTIONS''"
    and "json req = Inr b"
    and "get_field b ''videoUrl'' = Inr (JStr url)"
    and "ownerId (parse_video_url url) = Some oid"
    and "videoId (parse_video_url url) = Some vid"
    and "env = Some token" and "token \<noteq> []"
    and "fetch (vkApiUrl (parse_video_url url) env) = Inr vkData"
    and "get_field vkData ''error'' = Inr err" and "truthy err"
  shows "(status (reply (handler req env fetch)) = 400 \<longleftrightarrow>
            existingAccessKey (parse_video_url url) = None) \<and>
         (case existingAccessKey (parse_video_url url) of
            None \<Rightarrow>
              \<exists>msg code. get_field err ''error_msg'' = Inr msg \<and>
                get_field err ''error_code'' = Inr code \<and>
                reply (handler req env fetch) =
                  json_response 400 (JObj
                    [(''error'', js_or msg (JStr ''VK API error'')),
                     (''errorCode'', code),
                     (''hint'', JStr hint)])
          | Some key \<Rightarrow>
              reply (handler req env fetch) =
                json_response 200 (JObj
                  [(''success'', JBool True),
                   (''embedUrl'', JStr (''https://vk.com/video_ext.php?oid='' @ oid @ ''&id='' @ vid @
                                          ''&hash='' @ key @ ''&hd=2&autoplay=0'')),
                   (''ownerId'', JStr oid),
                   (''videoId'', JStr vid),
                   (''accessKey'', JStr key),
                   (''source'', JStr ''fallback'')]))"
proof -
  let ?p = "parse_video_url url"
  obtain msg code where f: "get_field err ''error_msg'' = Inr msg" "get_field err ''error_code'' = Inr code"
    using get_field_truthy[OF assms(10)] by blast
  show ?thesis
  proof (cases "existingAccessKey ?p")
    case None
    then have "provider_response ?p vkData = Inr (json_response 400 (JObj
        [(''error'', js_or msg (JStr ''VK API error'')), (''errorCode'', code), (''hint'', JStr hint)]))"
      using assms(9,10) f parsed_key_missing[of url]
      by (simp add: provider_response_def error_branch_def)
    from handler_provider[where fetch = fetch, OF assms(1-8) this] None f show ?thesis
      by (simp add: json_response_def)
  next
    case (Some key)
    then have "provider_response ?p vkData = Inr (fallback_response ?p)"
      using assms(9,10) parsed_key_missing[of url]
      by (simp add: provider_response_def error_branch_def)
    from handler_provider[where fetch = fetch, OF assms(1-8) this] Some assms(4,5) show ?thesis
      by (simp add: fallback_response_def json_response_def hash_embed_url_def show_nullable_def
          of_nullable_def)
  qed
qed

theorem c1_provider_error_witness:
  "reply (handler
      \<lparr>req_method = ''POST'',
       json = Inr (JObj [(''videoUrl'', JStr ''https://vk.com/video-123456789_456239017_deadbeef'')])\<rparr>
      (Some ''token'')
      (\<lambda>u. Inr (JObj [(''error'', JObj [(''error_code'', JNum (NonZero ''15'')),
                                           (''error_msg'', JStr ''Access denied'')])]))) =
   json_response 200 (JObj
     [(''success'', JBool True),
      (''embedUrl'', JStr ''https://vk.com/video_ext.php?oid=-123456789&id=456239017&hash=deadbeef&hd=2&autoplay=0''),
      (''ownerId'', JStr ''-123456789''),
      (''videoId'', JStr ''456239017''),
      (''accessKey'', JStr ''deadbeef''),
      (''source'', JStr ''fallback'')])"
  using c1_provider_error [of
      "\<lparr>req_method = ''POST'',
        json = Inr (JObj [(''videoUrl'', JStr ''https://vk.com/video-123456789_456239017_deadbeef'')])\<rparr>"
      "JObj [(''videoUrl'', JStr ''https://vk.com/video-123456789_456239017_deadbeef'')]"
      "''https://vk.com/video-123456789_456239017_deadbeef''"
      "''-123456789''" "''456239017''" "Some ''token''" "''token''"
      "\<lambda>u. Inr (JObj [(''error'', JObj [(''error_code'', JNum (NonZero ''15'')),
                                           (''error_msg'', JStr ''Access denied'')])])"
      "JObj [(''error'', JObj [(''error_code'', JNum (NonZero ''15'')), (''error_msg'', JStr ''Access denied'')])]"
      "JObj [(''error_code'', JNum (NonZero ''15'')), (''error_msg'', JStr ''Access denied'')]"]
  by (simp add: parse_example_key)

subsection \<open>C2: the provider answers with no record\<close>

text \<open>
  Claim C2. Let a request reach the provider call and let the provider's answer carry no
  error and no record (\<^verbatim>\<open>vkData.response?.items || []\<close> has length 0). Then the status is
  404 if and only if no access key was extracted from the input URL; with a key the
  response is a success with the embed URL built from that key and
  \<^verbatim>\<open>source = "fallback"\<close>.
\<close>

theorem c2_no_records:
  assumes "req_method req \<noteq> ''OPTIONS''"
    and "json req = Inr b"
    and "get_field b ''videoUrl'' = Inr (JStr url)"
    and "ownerId (parse_video_url url) = Some oid"
    and "videoId (parse_video_url url) = Some vid"
    and "env = Some token" and "token \<noteq> []"
    and "fetch (vkApiUrl (parse_video_url url) env) = Inr vkData"
    and "get_field vkData ''error'' = Inr err" and "\<not> truthy err"
    and "videos_of vkData = Inr videos" and "length_is_zero videos = Inr True"
  shows "(status (reply (handler req env fetch)) = 404 \<longleftrightarrow>
            existingAccessKey (parse_video_url url) = None) \<and>
         (case existingAccessKey (parse_video_url url) of
            None \<Rightarrow>
              reply (handler req env fetch) =
                json_response 404 (JObj [(''error'', JStr ''Video not found or not accessible'')])
          | Some key \<Rightarrow>
              reply (handler req env fetch) =
                json_response 200 (JObj
                  [(''success'', JBool True),
                   (''embedUrl'', JStr (''https://vk.com/video_ext.php?oid='' @ oid @ ''&id='' @ vid @
                                          ''&hash='' @ key @ ''&hd=2&autoplay=0'')),
                   (''ownerId'', JStr oid),
                   (''videoId'', JStr vid),
                   (''accessKey'', JStr key),
                   (''source'', JStr ''fallback'')]))"
proof -
  let ?p = "parse_video_url url"
  show ?thesis
  proof (cases "existingAccessKey ?p")
    case None
    then have "provider_response ?p vkData = Inr (json_response 404 (JObj
        [(''error'', JStr ''Video not found or not accessible'')]))"
      using assms(9-12) parsed_key_missing[of url]
      by (simp add: provider_response_def empty_branch_def)
    from handler_provider[where fetch = fetch, OF assms(1-8) this] None show ?thesis
      by (simp add: json_response_def)
  next
    case (Some key)
    then have "provider_response ?p vkData = Inr (fallback_response ?p)"
      using assms(9-12) parsed_key_missing[of url]
      by (simp add: provider_response_def empty_branch_def)
    from handler_provider[where fetch = fetch, OF assms(1-8) this] Some assms(4,5) show ?thesis
      by (simp add: fallback_response_def json_response_def hash_embed_url_def show_nullable_def
          of_nullable_def)
  qed
qed

theorem c2_no_records_witness:
  "reply (handler
      \<lparr>req_method = ''POST'',
       json = Inr (JObj [(''videoUrl'', JStr ''https://vk.com/video-123456789_456239017'')])\<rparr>
      (Some ''token'')
      (\<lambda>u. Inr (JObj [(''response'', JObj [(''count'', JNum Zero), (''items'', JArr [])])]))) =
   json_response 404 (JObj [(''error'', JStr ''Video not found or not accessible'')])"
  using c2_no_records [of
      "\<lparr>req_method = ''POST'',
        json = Inr (JObj [(''videoUrl'', JStr ''https://vk.com/video-123456789_456239017'')])\<rparr>"
      "JObj [(''videoUrl'', JStr ''https://vk.com/video-123456789_456239017'')]"
      "''https://vk.com/video-123456789_456239017''"
      "''-123456789''" "''456239017''" "Some ''token''" "''token''"
      "\<lambda>u. Inr (JObj [(''response'', JObj [(''count'', JNum Zero), (''items'', JArr [])])])"
      "JObj [(''response'', JObj [(''count'', JNum Zero), (''items'', JArr [])])]"
      JUndefined "JArr []"]
  by (simp add: parse_example_plain videos_of_def js_or_def)

subsection \<open>C3: the extension-embed pattern\<close>

text \<open>
  Claim C3, as amended. Let the input URL have no line terminator and contain
  \<^verbatim>\<open>video_ext.php?\<close>, later \<^verbatim>\<open>oid=\<close> followed by a signed integer, and after that
  \<^verbatim>\<open>id=\<close> followed by an integer (all three in any letter case), these being the last
  occurrences of \<^verbatim>\<open>oid=\<close> and of \<^verbatim>\<open>id=\<close> in the URL. Then the owner id is the integer
  after \<^verbatim>\<open>oid=\<close> and the video id is the integer after \<^verbatim>\<open>id=\<close>. If moreover the
  leftmost match of \<^verbatim>\<open>[?&]hash=\<close> followed by hexadecimal digits is at a maximal run
  \<open>tok\<close>, then step 1 adopts \<open>tok\<close> as the access key, and \<open>tok\<close> is the final key unless
  the embedded-key pattern of step 4 matches. The order is fixed: \<^verbatim>\<open>oid=\<close> comes before
  \<^verbatim>\<open>id=\<close>.
\<close>

theorem c3_extension_embed:
  assumes "url = pre @ x @ q1 @ a @ sg @ d1 @ q2 @ b @ d2 @ rest"
    and "\<not> list_ex line_terminator url"
    and "ci_eq ''video_ext.php?'' x" and "ci_eq ''oid='' a" and "ci_eq ''id='' b"
    and "sg = [] \<or> sg = ''-''" and "d1 \<noteq> []" and "list_all digit d1"
    and "d2 \<noteq> []" and "list_all digit d2"
    and "q2 = [] \<or> \<not> digit (hd q2)" and "rest = [] \<or> \<not> digit (hd rest)"
    and "\<not> occurs_ci ''oid='' (q2 @ b @ d2 @ rest)" and "\<not> occurs_ci ''id='' rest"
  shows "ownerId (parse_video_url url) = Some (sg @ d1) \<and>
         videoId (parse_video_url url) = Some d2 \<and>
         (\<forall>p c h tok r.
            url = p @ c # h @ tok @ r \<and> (c = CHR ''?'' \<or> c = CHR ''&'') \<and> ci_eq ''hash='' h \<and>
            tok \<noteq> [] \<and> list_all hex_digit tok \<and> (r = [] \<or> \<not> hex_digit (hd r)) \<and>
            (\<forall>i<length p. \<not> matches_at hashRe url i) \<longrightarrow>
            existingAccessKey
              (step_ext url \<lparr>ownerId = None, videoId = None, existingAccessKey = None\<rparr>) = Some tok \<and>
            (js_match accessKeyRe url = None \<longrightarrow>
               existingAccessKey (parse_video_url url) = Some tok))"
proof -
  from ext_match[OF assms] obtain m where m: "js_match extRe url = Some m"
    "groups m = [(2, d2), (1, sg @ d1)]" by blast
  then have g: "grp m 1 = Some (sg @ d1)" "grp m 2 = Some d2" by (simp_all add: grp_def)
  have ids: "ownerId (parse_video_url url) = Some (sg @ d1) \<and> videoId (parse_video_url url) = Some d2"
    by (rule ids_after_ext[OF m(1) g])
  have key: "existingAccessKey
              (step_ext url \<lparr>ownerId = None, videoId = None, existingAccessKey = None\<rparr>) = Some tok \<and>
            (js_match accessKeyRe url = None \<longrightarrow>
               existingAccessKey (parse_video_url url) = Some tok)"
    if h: "url = p @ c # h @ tok @ r" "c = CHR ''?'' \<or> c = CHR ''&''" "ci_eq ''hash='' h"
      "tok \<noteq> []" "list_all hex_digit tok" "r = [] \<or> \<not> hex_digit (hd r)"
      "\<forall>i<length p. \<not> matches_at hashRe url i"
    for p c h tok r
  proof -
    have "first_match (ignoreCase hashRe) (length url) (pattern hashRe) (c # h @ tok @ r) [] =
            Some (r, [(1, tok)])"
      using hash_shape[OF h(2-6)] by (simp add: hashRe_def)
    from js_match_at[OF h(1,7) this] obtain hm where hm: "js_match hashRe url = Some hm"
      "groups hm = [(1, tok)]" by blast
    then have 1: "existingAccessKey
        (step_ext url \<lparr>ownerId = None, videoId = None, existingAccessKey = None\<rparr>) = Some tok"
      using m(1) by (simp add: step_ext_def Let_def grp_def)
    with key_priority[of url] show ?thesis by simp
  qed
  from ids key show ?thesis by blast
qed

theorem c3_extension_embed_witness:
  "ownerId (parse_video_url ''https://vk.com/video_ext.php?oid=-123456789&id=456239017&hash=abc123'') =
     Some ''-123456789'' \<and>
   videoId (parse_video_url ''https://vk.com/video_ext.php?oid=-123456789&id=456239017&hash=abc123'') =
     Some ''456239017'' \<and>
   existingAccessKey (parse_video_url ''https://vk.com/video_ext.php?oid=-123456789&id=456239017&hash=abc123'') =
     Some ''abc123''"
proof -
  let ?url = "''https://vk.com/video_ext.php?oid=-123456789&id=456239017&hash=abc123''"
  have nohash: "\<forall>i<length ''https://vk.com/video_ext.php?oid=-123456789&id=456239017''.
                  \<not> matches_at hashRe ?url i"
    by (simp add: All_less_Suc matches_at_def regex_eval)
  have nokey: "js_match accessKeyRe ?url = None"
    by (simp add: regex_eval)
  have shape: "ownerId (parse_video_url ?url) = Some (''-'' @ ''123456789'') \<and>
         videoId (parse_video_url ?url) = Some ''456239017'' \<and>
         (\<forall>p c h tok r.
            ?url = p @ c # h @ tok @ r \<and> (c = CHR ''?'' \<or> c = CHR ''&'') \<and> ci_eq ''hash='' h \<and>
            tok \<noteq> [] \<and> list_all hex_digit tok \<and> (r = [] \<or> \<not> hex_digit (hd r)) \<and>
            (\<forall>i<length p. \<not> matches_at hashRe ?url i) \<longrightarrow>
            existingAccessKey
              (step_ext ?url \<lparr>ownerId = None, videoId = None, existingAccessKey = None\<rparr>) = Some tok \<and>
            (js_match accessKeyRe ?url = None \<longrightarrow>
               existingAccessKey (parse_video_url ?url) = Some tok))"
    by (rule c3_extension_embed [of ?url "''https://vk.com/''" "''video_ext.php?''" "[]" "''oid=''"
          "''-''" "''123456789''" "''&''" "''id=''" "''456239017''" "''&hash=abc123''"])
       (simp_all add: shape_eval)
  then have "existingAccessKey (parse_video_url ?url) = Some ''abc123''"
    using nohash nokey
    by (elim conjE allE[of _ "''https://vk.com/video_ext.php?oid=-123456789&id=456239017''"]
          allE[of _ "CHR ''&''"] allE[of _ "''hash=''"] allE[of _ "''abc123''"] allE[of _ "[]"])
       (simp add: shape_eval)
  with shape show ?thesis by simp
qed

text \<open>The claim as stated allows the two parameters in either order; with \<^verbatim>\<open>id=\<close>
  before \<^verbatim>\<open>oid=\<close> no pattern matches and nothing is extracted.\<close>

theorem c3_reversed_order_counterexample:
  "parse_video_url ''https://vk.com/video_ext.php?id=456239017&oid=-123456789'' =
     \<lparr>ownerId = None, videoId = None, existingAccessKey = None\<rparr>"
  by (simp add: parse_eval regex_eval)

text \<open>Why the theorem asks for the last occurrence of \<^verbatim>\<open>id=\<close>: the greedy \<^verbatim>\<open>.*\<close>
  before it runs to the last place where \<^verbatim>\<open>id=\<close> and a digit follow, also inside the
  name of another parameter.\<close>

lemma ext_later_id_example:
  "videoId (parse_video_url ''vk.com/video_ext.php?oid=1&id=2&vid=3'') = Some ''3''"
  by (simp add: parse_eval regex_eval)

subsection \<open>C4: the key embedded in the path\<close>

text \<open>
  Claim C4. Let the input URL contain, as the leftmost place where the embedded-key pattern
  matches, the text \<^verbatim>\<open>video\<close> (in any letter case), an optional \<^verbatim>\<open>-\<close>, digits,
  \<^verbatim>\<open>_\<close>, digits, \<^verbatim>\<open>_\<close> and a maximal run \<open>tok\<close> of hexadecimal digits. Then the
  final access key is \<open>tok\<close>, whatever key step 1 had adopted from a \<^verbatim>\<open>hash=\<close>
  parameter. In general the final key is the token of step 4 if that pattern matches,
  else the key of step 1 if it produced one, and only otherwise the result of the
  \<^verbatim>\<open>hash=\<close> scan of step 5.
\<close>

theorem c4_embedded_key:
  assumes "url = pre @ v @ sg @ d1 @ ''_'' @ d2 @ ''_'' @ tok @ rest"
    and "ci_eq ''video'' v"
    and "sg = [] \<or> sg = ''-''"
    and "d1 \<noteq> []" and "list_all digit d1"
    and "d2 \<noteq> []" and "list_all digit d2"
    and "tok \<noteq> []" and "list_all hex_digit tok"
    and "rest = [] \<or> \<not> hex_digit (hd rest)"
    and "\<forall>i<length pre. \<not> matches_at accessKeyRe url i"
  shows "existingAccessKey (parse_video_url url) = Some tok \<and>
         existingAccessKey (parse_video_url url) =
           (case js_match accessKeyRe url of
              Some m \<Rightarrow> grp m 1
            | None \<Rightarrow>
               (case existingAccessKey
                       (step_ext url \<lparr>ownerId = None, videoId = None, existingAccessKey = None\<rparr>) of
                  Some k \<Rightarrow> Some k
                | None \<Rightarrow> (case js_match hashRe url of Some h \<Rightarrow> grp h 1 | None \<Rightarrow> None)))"
proof -
  have "first_match (ignoreCase accessKeyRe) (length url) (pattern accessKeyRe)
          (v @ sg @ d1 @ ''_'' @ d2 @ ''_'' @ tok @ rest) [] = Some (rest, [(1, tok)])"
    using accessKey_shape[OF assms(2-10)] by (simp add: accessKeyRe_def)
  from js_match_at[OF assms(1,11) this] obtain m where
    "js_match accessKeyRe url = Some m" "groups m = [(1, tok)]" by blast
  then show ?thesis
    using key_priority[of url] by (simp add: grp_def)
qed

theorem c4_embedded_key_witness:
  "existingAccessKey
     (step_ext ''vk.com/video_ext.php?oid=-1&id=2&hash=abc&ref=video-1_2_def''
        \<lparr>ownerId = None, videoId = None, existingAccessKey = None\<rparr>) = Some ''abc'' \<and>
   existingAccessKey (parse_video_url ''vk.com/video_ext.php?oid=-1&id=2&hash=abc&ref=video-1_2_def'') =
     Some ''def''"
proof -
  have step1: "existingAccessKey
     (step_ext ''vk.com/video_ext.php?oid=-1&id=2&hash=abc&ref=video-1_2_def''
        \<lparr>ownerId = None, videoId = None, existingAccessKey = None\<rparr>) = Some ''abc''"
    by (simp add: step_ext_def regex_eval)
  have "\<forall>i<length ''vk.com/video_ext.php?oid=-1&id=2&hash=abc&ref=''.
          \<not> matches_at accessKeyRe ''vk.com/video_ext.php?oid=-1&id=2&hash=abc&ref=video-1_2_def'' i"
    by (simp add: All_less_Suc matches_at_def regex_eval)
  then show ?thesis
    using step1 c4_embedded_key [of "''vk.com/video_ext.php?oid=-1&id=2&hash=abc&ref=video-1_2_def''"
        "''vk.com/video_ext.php?oid=-1&id=2&hash=abc&ref=''" "''video''" "''-''" "''1''" "''2''"
        "''def''" "[]"]
    by (simp add: shape_eval)
qed

subsection \<open>C5: a URL of no recognised shape\<close>

text \<open>
  Claim C5. When the input URL matches none of the three identifier patterns (extension
  embed, canonical path, query redirect), the request is answered with status 400, the body
  carries the message \<^verbatim>\<open>Invalid VK video URL format\<close> and the input itself as
  \<^verbatim>\<open>originalUrl\<close>, and nothing is fetched.
\<close>

theorem c5_invalid_url:
  assumes "req_method req \<noteq> ''OPTIONS''"
    and "json req = Inr b"
    and "get_field b ''videoUrl'' = Inr (JStr url)"
    and "url \<noteq> []"
    and "js_match extRe url = None"
    and "js_match standardRe url = None"
    and "js_match zRe url = None"
  shows "handler req env fetch =
           \<lparr>reply = json_response 400 (JObj [(''error'', JStr ''Invalid VK video URL format''),
                                              (''originalUrl'', JStr url)]),
            fetched = []\<rparr>"
  using assms(1-4) parse_no_match[OF assms(5-7)]
  by (simp add: handler_def try_block_def missing_def of_nullable_def Let_def)

theorem c5_invalid_url_witness:
  "handler \<lparr>req_method = ''POST'', json = Inr (JObj [(''videoUrl'', JStr ''https://example.com/watch?id=1'')])\<rparr>
       (Some ''token'') (\<lambda>u. Inl TypeError) =
     \<lparr>reply = json_response 400 (JObj [(''error'', JStr ''Invalid VK video URL format''),
                                        (''originalUrl'', JStr ''https://example.com/watch?id=1'')]),
      fetched = []\<rparr>"
proof -
  have 1: "js_match extRe ''https://example.com/watch?id=1'' = None" by (simp add: regex_eval)
  have 2: "js_match standardRe ''https://example.com/watch?id=1'' = None" by (simp add: regex_eval)
  have 3: "js_match zRe ''https://example.com/watch?id=1'' = None" by (simp add: regex_eval)
  show ?thesis
    using c5_invalid_url [of "\<lparr>req_method = ''POST'', json = Inr (JObj [(''videoUrl'', JStr ''https://example.com/watch?id=1'')])\<rparr>"
      "JObj [(''videoUrl'', JStr ''https://example.com/watch?id=1'')]" "''https://example.com/watch?id=1''"
      "Some ''token''" "\<lambda>u. Inl TypeError", OF _ _ _ _ 1 2 3]
    by simp
qed

subsection \<open>C6: the record supplies a player URL\<close>



subsection \<open>C7: the provider answers with a record\<close>

text \<open>
  Claim C7. Let a request reach the provider call and let the provider's answer carry no
  error and at least one record, the first being an object whose \<^verbatim>\<open>access_key\<close> and
  \<^verbatim>\<open>player\<close> are strings or absent. The first record is used. The effective access key
  is the record's key if it is present (a non-empty string), else the key extracted from
  the input URL. Without a player URL the embed URL is the \<^verbatim>\<open>hash=\<close> template with the
  effective key if there is one, and the keyless template otherwise; with a player URL it
  is derived from that URL. In all three cases the response is a success with
  \<^verbatim>\<open>source = "vk_api"\<close>.
\<close>

theorem c7_record_found:
  assumes "req_method req \<noteq> ''OPTIONS''"
    and "json req = Inr b"
    and "get_field b ''videoUrl'' = Inr (JStr url)"
    and "ownerId (parse_video_url url) = Some oid"
    and "videoId (parse_video_url url) = Some vid"
    and "env = Some token" and "token \<noteq> []"
    and "fetch (vkApiUrl (parse_video_url url) env) = Inr vkData"
    and "get_field vkData ''error'' = Inr err" and "\<not> truthy err"
    and "videos_of vkData = Inr (JArr (JObj kvs # others))"
    and "map_of kvs ''access_key'' = map_option JStr recordKey"
    and "map_of kvs ''player'' = map_option JStr recordPlayer"
    and "get_field (JObj kvs) ''title'' = Inr title"
    and "get_field (JObj kvs) ''duration'' = Inr duration"
    and "effectiveKey = (if recordKey = None \<or> recordKey = Some []
                         then existingAccessKey (parse_video_url url) else recordKey)"
    and "player = (if recordPlayer = Some [] then None else recordPlayer)"
  shows "reply (handler req env fetch) =
           json_response 200 (JObj
             [(''success'', JBool True),
              (''embedUrl'', JStr
                 (case player of
                    Some p \<Rightarrow> player_embed_url p
                  | None \<Rightarrow>
                     (case effectiveKey of
                        Some key \<Rightarrow> ''https://vk.com/video_ext.php?oid='' @ oid @ ''&id='' @ vid @
                                      ''&hash='' @ key @ ''&hd=2&autoplay=0''
                      | None \<Rightarrow> ''https://vk.com/video_ext.php?oid='' @ oid @ ''&id='' @ vid @
                                  ''&hd=2&autoplay=0''))),
              (''ownerId'', JStr oid),
              (''videoId'', JStr vid),
              (''accessKey'', of_nullable effectiveKey),
              (''title'', js_or title JNull),
              (''duration'', js_or duration JNull),
              (''playerUrl'', of_nullable player),
              (''source'', JStr ''vk_api'')])"
  using assms by (rule handler_record)

theorem c7_record_found_witness:
  "reply (handler
      \<lparr>req_method = ''POST'',
       json = Inr (JObj [(''videoUrl'', JStr ''https://vk.com/video-123456789_456239017'')])\<rparr>
      (Some ''token'')
      (\<lambda>u. Inr (JObj [(''response'', JObj [(''count'', JNum (NonZero ''1'')),
            (''items'', JArr [JObj [(''title'', JStr ''Clip''), (''access_key'', JStr ''abc123'')]])])]))) =
   json_response 200 (JObj
     [(''success'', JBool True),
      (''embedUrl'', JStr ''https://vk.com/video_ext.php?oid=-123456789&id=456239017&hash=abc123&hd=2&autoplay=0''),
      (''ownerId'', JStr ''-123456789''),
      (''videoId'', JStr ''456239017''),
      (''accessKey'', JStr ''abc123''),
      (''title'', JStr ''Clip''),
      (''duration'', JNull),
      (''playerUrl'', JNull),
      (''source'', JStr ''vk_api'')])"
  using c7_record_found [of
      "\<lparr>req_method = ''POST'',
        json = Inr (JObj [(''videoUrl'', JStr ''https://vk.com/video-123456789_456239017'')])\<rparr>"
      "JObj [(''videoUrl'', JStr ''https://vk.com/video-123456789_456239017'')]"
      "''https://vk.com/video-123456789_456239017''"
      "''-123456789''" "''456239017''" "Some ''token''" "''token''"
      "\<lambda>u. Inr (JObj [(''response'', JObj [(''count'', JNum (NonZero ''1'')),
            (''items'', JArr [JObj [(''title'', JStr ''Clip''), (''access_key'', JStr ''abc123'')]])])])"
      "JObj [(''response'', JObj [(''count'', JNum (NonZero ''1'')),
            (''items'', JArr [JObj [(''title'', JStr ''Clip''), (''access_key'', JStr ''abc123'')]])])]"
      JUndefined
      "[(''title'', JStr ''Clip''), (''access_key'', JStr ''abc123'')]" "[]"
      "Some ''abc123''" None "JStr ''Clip''" JUndefined "Some ''abc123''" None]
  by (simp add: parse_example_plain videos_of_def js_or_def of_nullable_def)

subsection \<open>C8: the invariant of a resolved reference\<close>

text \<open>
  Claim C8, as amended. When resolution succeeds (the handler's test
  \<^verbatim>\<open>!ownerId || !videoId\<close> fails), the owner id and the video id are non-empty strings,
  and the access key, when there is one, is a non-empty string of hexadecimal digits of
  either case: the key patterns carry the \<^verbatim>\<open>i\<close> flag, so \<^verbatim>\<open>[a-f0-9]\<close> also accepts
  \<^verbatim>\<open>A\<close> to \<^verbatim>\<open>F\<close>.
\<close>

theorem c8_reference_invariant:
  assumes "\<not> missing (ownerId (parse_video_url url))"
    and "\<not> missing (videoId (parse_video_url url))"
  shows "(\<exists>oid vid. ownerId (parse_video_url url) = Some oid \<and> oid \<noteq> [] \<and>
                     videoId (parse_video_url url) = Some vid \<and> vid \<noteq> []) \<and>
         (case existingAccessKey (parse_video_url url) of
            None \<Rightarrow> True
          | Some key \<Rightarrow> key \<noteq> [] \<and> list_all hex_digit key)"
proof -
  from assms have "\<exists>oid vid. ownerId (parse_video_url url) = Some oid \<and> oid \<noteq> [] \<and>
                     videoId (parse_video_url url) = Some vid \<and> vid \<noteq> []"
    by (cases "ownerId (parse_video_url url)"; cases "videoId (parse_video_url url)")
       (simp_all add: missing_def of_nullable_def)
  moreover have "key_ok (parse_video_url url)" by (rule parse_key_ok)
  ultimately show ?thesis by (simp add: key_ok_def)
qed

theorem c8_reference_invariant_witness:
  "(\<exists>oid vid. ownerId (parse_video_url ''https://vk.com/video-1_2_ABCDEF'') = Some oid \<and> oid \<noteq> [] \<and>
               videoId (parse_video_url ''https://vk.com/video-1_2_ABCDEF'') = Some vid \<and> vid \<noteq> []) \<and>
   (case existingAccessKey (parse_video_url ''https://vk.com/video-1_2_ABCDEF'') of
      None \<Rightarrow> True
    | Some key \<Rightarrow> key \<noteq> [] \<and> list_all hex_digit key)"
  using c8_reference_invariant [of "''https://vk.com/video-1_2_ABCDEF''"]
  by (simp add: parse_example_upper missing_def of_nullable_def)

text \<open>The claim as stated asks for lower-case digits only; an upper-case key is extracted
  as it is written.\<close>

theorem c8_lowercase_counterexample:
  "\<not> missing (ownerId (parse_video_url ''https://vk.com/video-1_2_ABCDEF'')) \<and>
   \<not> missing (videoId (parse_video_url ''https://vk.com/video-1_2_ABCDEF'')) \<and>
   existingAccessKey (parse_video_url ''https://vk.com/video-1_2_ABCDEF'') = Some ''ABCDEF'' \<and>
   \<not> list_all lower_hex_digit ''ABCDEF''"
  by (simp add: parse_example_upper missing_def of_nullable_def lower_hex_digit_def)

subsection \<open>C9: CORS headers on every response\<close>

text \<open>
  Claim C9. Every response of the handler, whatever the request, the environment and the
  provider's behaviour are (preflight, the 400, 404 and 500 errors, both kinds of success),
  carries the header \<^verbatim>\<open>Access-Control-Allow-Origin: *\<close> and the header
  \<^verbatim>\<open>Access-Control-Allow-Headers\<close>.
\<close>

theorem c9_cors_headers:
  "map_of (headers (reply (handler req env fetch))) ''Access-Control-Allow-Origin'' = Some ''*'' \<and>
   map_of (headers (reply (handler req env fetch))) ''Access-Control-Allow-Headers'' =
     Some ''authorization, x-client-info, apikey, content-type''"
proof (cases "req_method req = ''OPTIONS''")
  case True
  then show ?thesis by (simp add: handler_def corsHeaders_def)
next
  case False
  obtain urls res where t: "try_block req env fetch = (urls, res)" by (cases "try_block req env fetch")
  show ?thesis
  proof (cases res)
    case (Inl e)
    with False t have "reply (handler req env fetch) = json_response 500 (JObj
        [(''error'', JStr ''Internal server error''), (''details'', JStr (error_text e))])"
      by (simp add: handler_def)
    then show ?thesis using has_cors_json by (simp add: has_cors_def)
  next
    case (Inr r)
    with False t have "reply (handler req env fetch) = r" by (simp add: handler_def)
    moreover from t Inr have "has_cors r" using try_block_cors by blast
    ultimately show ?thesis by (simp add: has_cors_def)
  qed
qed

theorem c9_cors_headers_witness:
  "map_of (headers (reply (handler \<lparr>req_method = ''OPTIONS'', json = Inl (Rejected ''SyntaxError'')\<rparr> None (\<lambda>u. Inl TypeError))))
     ''Access-Control-Allow-Origin'' = Some ''*'' \<and>
   map_of (headers (reply (handler \<lparr>req_method = ''OPTIONS'', json = Inl (Rejected ''SyntaxError'')\<rparr> None (\<lambda>u. Inl TypeError))))
     ''Access-Control-Allow-Headers'' = Some ''authorization, x-client-info, apikey, content-type''"
  by (rule c9_cors_headers)

subsection \<open>C10: a falsy videoUrl\<close>

text \<open>
  Claim C10. A request whose body supplies \<^verbatim>\<open>videoUrl\<close> as the empty string, or as any
  other falsy value, or not at all (reading the field then gives \<^verbatim>\<open>undefined\<close>), is
  answered with status 400 and the body \<^verbatim>\<open>{error: 'Missing videoUrl parameter'}\<close>,
  whatever the environment and the provider are, and nothing is fetched.
\<close>

theorem c10_missing_input:
  assumes "req_method req \<noteq> ''OPTIONS''"
    and "json req = Inr b"
    and "get_field b ''videoUrl'' = Inr v"
    and "\<not> truthy v"
  shows "handler req env fetch =
           \<lparr>reply = json_response 400 (JObj [(''error'', JStr ''Missing videoUrl parameter'')]),
            fetched = []\<rparr>"
  using assms by (simp add: handler_def try_block_def)

theorem c10_missing_input_witness:
  "handler \<lparr>req_method = ''POST'', json = Inr (JObj [(''videoUrl'', JStr '''')])\<rparr> (Some ''token'')
       (\<lambda>u. Inr (JObj [(''response'', JObj [(''items'', JArr [])])])) =
     \<lparr>reply = json_response 400 (JObj [(''error'', JStr ''Missing videoUrl parameter'')]),
      fetched = []\<rparr>"
  using c10_missing_input [of "\<lparr>req_method = ''POST'', json = Inr (JObj [(''videoUrl'', JStr '''')])\<rparr>"
      "JObj [(''videoUrl'', JStr '''')]" "JStr ''''" "Some ''token''"
      "\<lambda>u. Inr (JObj [(''response'', JObj [(''items'', JArr [])])])"]
  by simp

end
